(* ===== verification/Prelude.thy ===== *)
theory Prelude
  imports Main "HOL-Library.Word"
begin

text \<open>
  Shared vocabulary of the development. A Go \<open>string\<close> is a sequence of bytes: it is
  modelled as an Isabelle \<^typ>\<open>string\<close>, whose \<^typ>\<open>char\<close> is exactly one byte, and a
  Go \<open>byte\<close> read from it is the \<^typ>\<open>8 word\<close> \<open>byte_of c\<close>, so that the byte
  arithmetic of the Go library (\<open>ch -= '0'\<close>, \<open>c | 0x20\<close>) wraps as it does in Go.
  A Go function returning \<open>(T, error)\<close> returns a pair \<open>'a go_result\<close>: the value
  the code really returns next to the error (\<open>None\<close> for \<open>nil\<close>), since callers
  and tests observe the value even when the error is set.
  The error values are those the program can meet: \<open>*strconv.NumError\<close> with its
  \<open>Func\<close>, \<open>Num\<close> and \<open>Err\<close> fields, \<open>io.EOF\<close>, \<open>io.ErrNoProgress\<close>,
  \<open>bufio.ErrBufferFull\<close> and an operating-system read error. The spec's two error
  kinds (ReadError, ParseError) are a classification of these values.
\<close>

unbundle bit_operations_syntax

named_theorems byte_simps \<open>evaluation of byte arithmetic on characters\<close>
named_theorems go_result_simps \<open>facts on Go (value, error) results\<close>

subsection \<open>Bytes and strings\<close>

type_synonym byte = "8 word"

definition byte_of :: "char \<Rightarrow> byte" where
  "byte_of c = of_char c"

text \<open>ASCII digits and the decimal value of a digit string, for the specifications.\<close>

definition is_digit :: "char \<Rightarrow> bool" where
  "is_digit c \<longleftrightarrow> 48 \<le> (of_char c :: nat) \<and> (of_char c :: nat) \<le> 57"

definition digit_val :: "char \<Rightarrow> nat" where
  "digit_val c = of_char c - 48"

definition dec_val :: "string \<Rightarrow> nat" where
  "dec_val s = foldl (\<lambda>n c. 10 * n + digit_val c) 0 s"

subsection \<open>Errors and results\<close>

text \<open>\<open>strconv.ErrSyntax\<close> and \<open>strconv.ErrRange\<close>.\<close>
datatype num_err = ErrSyntax | ErrRange

text \<open>
  \<open>NumError f s e\<close> is \<open>&strconv.NumError{Func: f, Num: s, Err: e}\<close>;
  \<open>OsError\<close> is the \<open>*PathError\<close> of a failing \<open>read(2)\<close> on standard input.
\<close>
datatype go_error =
    NumError string string num_err
  | EOF
  | ErrNoProgress
  | ErrBufferFull
  | OsError string

type_synonym 'a go_result = "'a \<times> go_error option"

definition syntax_error :: "string \<Rightarrow> string \<Rightarrow> go_error" where
  "syntax_error fn s = NumError fn s ErrSyntax"

definition range_error :: "string \<Rightarrow> string \<Rightarrow> go_error" where
  "range_error fn s = NumError fn s ErrRange"

text \<open>The spec's error kinds (section 7 of the spec): every failure is one of two kinds.\<close>
datatype err_kind = ReadError | ParseError

fun kind_of :: "go_error \<Rightarrow> err_kind" where
  "kind_of (NumError _ _ _) = ParseError"
| "kind_of _ = ReadError"

text \<open>What a caller of the spec's result type sees: the error kind, or the value.\<close>
definition as_result :: "'a go_result \<Rightarrow> err_kind + 'a" where
  "as_result r = (case snd r of None \<Rightarrow> Inr (fst r) | Some e \<Rightarrow> Inl (kind_of e))"

subsection \<open>Searching bytes\<close>

text \<open>\<open>bytes.IndexByte\<close>: the index of the first occurrence, or -1.\<close>
fun index_byte :: "char \<Rightarrow> string \<Rightarrow> int" where
  "index_byte c [] = -1"
| "index_byte c (x # xs) = (if x = c then 0 else (let i = index_byte c xs in if i < 0 then -1 else i + 1))"

lemma unat_byte_of [simp, byte_simps]: "unat (byte_of c) = of_char c"
proof -
  have "byte_of c = word_of_nat (of_char c)"
    by (simp add: byte_of_def of_nat_of_char)
  then show ?thesis
    by (simp only: unat_of_nat) simp
qed

lemma byte_of_eq_iff [simp]: "byte_of c = byte_of d \<longleftrightarrow> c = d"
proof
  assume "byte_of c = byte_of d"
  then have "unat (byte_of c) = unat (byte_of d)" by simp
  then show "c = d" by simp
qed simp

lemma byte_of_le_iff [byte_simps]: "byte_of c \<le> byte_of d \<longleftrightarrow> (of_char c :: nat) \<le> of_char d"
  by (simp add: word_le_nat_alt)

lemma dec_val_Nil [simp]: "dec_val [] = 0"
  by (simp add: dec_val_def)

lemma foldl_dec_shift: "foldl (\<lambda>n c. 10 * n + digit_val c) m s = m * 10 ^ length s + dec_val s"
proof (induction s rule: rev_induct)
  case Nil
  then show ?case by (simp add: dec_val_def)
next
  case (snoc c s)
  have "foldl (\<lambda>n c. 10 * n + digit_val c) m (s @ [c])
      = 10 * (m * 10 ^ length s + dec_val s) + digit_val c"
    by (simp only: foldl_append foldl_Cons foldl_Nil snoc.IH)
  also have "\<dots> = m * 10 ^ length (s @ [c]) + dec_val (s @ [c])"
    by (simp add: dec_val_def algebra_simps)
  finally show ?case .
qed

lemma dec_val_Cons: "dec_val (c # s) = digit_val c * 10 ^ length s + dec_val s"
proof -
  have "dec_val (c # s) = foldl (\<lambda>n c. 10 * n + digit_val c) (digit_val c) s"
    by (simp add: dec_val_def)
  then show ?thesis by (simp only: foldl_dec_shift)
qed

lemma dec_val_snoc [simp]: "dec_val (s @ [c]) = 10 * dec_val s + digit_val c"
  by (simp add: dec_val_def)

lemma digit_val_lt: "is_digit c \<Longrightarrow> digit_val c < 10"
  unfolding is_digit_def digit_val_def by linarith

lemma dec_val_lt: "list_all is_digit s \<Longrightarrow> dec_val s < 10 ^ length s"
proof (induction s rule: rev_induct)
  case Nil
  then show ?case by simp
next
  case (snoc c s)
  then have "dec_val s < 10 ^ length s" and "digit_val c < 10"
    by (simp_all add: digit_val_lt)
  then have "10 * dec_val s + digit_val c < 10 * 10 ^ length s"
    by linarith
  then show ?case by simp
qed

lemma as_result_simps [simp, go_result_simps]:
  "as_result (v, None) = Inr v"
  "as_result (v, Some e) = Inl (kind_of e)"
  by (simp_all add: as_result_def)

lemma kind_of_errors [simp, go_result_simps]:
  "kind_of (syntax_error f s) = ParseError"
  "kind_of (range_error f s) = ParseError"
  by (simp_all add: syntax_error_def range_error_def)

lemma index_byte_neg_iff: "index_byte c xs < 0 \<longleftrightarrow> c \<notin> set xs"
  by (induction xs) (auto simp: Let_def)

lemma index_byte_eq: "c \<in> set xs \<Longrightarrow> index_byte c xs = int (length (takeWhile (\<lambda>x. x \<noteq> c) xs))"
  by (induction xs) (auto simp: Let_def index_byte_neg_iff)

lemma index_byte_line:
  "CHR ''\<newline>'' \<notin> set l \<Longrightarrow> index_byte CHR ''\<newline>'' (l @ CHR ''\<newline>'' # extra) = int (length l)"
  by (induction l) (auto simp: Let_def)


end
