(* ===== verification/Strconv.thy ===== *)
theory Strconv
  imports Prelude
begin

text \<open>
  The parts of Go's \<open>strconv\<close> package that the program calls: \<open>Atoi\<close> (used by
  \<open>ReadInt\<close>) with the \<open>ParseInt\<close> and \<open>ParseUint\<close> it falls back on, \<open>ParseBool\<close>
  (used by \<open>ReadBool\<close>), and the decimal formatting of \<open>fmt.Sprintf("%d")\<close> that the
  tests use to produce their input. These are library code, not code of the repository:
  they are modelled from the Go library's source and documentation, at the instance the
  program reaches (\<open>ParseInt(s, 10, 0)\<close> on a 64-bit platform, so \<open>base = 10\<close>,
  \<open>bitSize = 64\<close>, and \<open>int\<close> is 64 bits wide). Go's \<open>int\<close>, \<open>int64\<close> and
  \<open>uint64\<close> are all \<^typ>\<open>64 word\<close>: they share their bits, and \<open>sint\<close> reads the
  signed ones; every \<open>*\<close> and \<open>+\<close> wraps as Go's do.
\<close>

subsection \<open>ParseUint (base 10, 64 bits)\<close>

text \<open>\<open>lower(c) = c | ('x' - 'X')\<close>.\<close>
definition lower :: "byte \<Rightarrow> byte" where
  "lower c = c OR (byte_of CHR ''x'' - byte_of CHR ''X'')"

text \<open>The untyped constant \<open>maxUint64 = 1<<64 - 1\<close> and the base-10 cutoff.\<close>
definition max_uint64 :: "64 word" where
  "max_uint64 = word_of_nat (2 ^ 64 - 1)"

definition cutoff10 :: "64 word" where
  "cutoff10 = max_uint64 div 10 + 1"

text \<open>\<open>maxVal := uint64(1)<<uint(bitSize) - 1\<close>, a run-time \<open>uint64\<close> shift by 64.\<close>
definition max_val :: "64 word" where
  "max_val = push_bit 64 1 - 1"

text \<open>The digit switch of the loop: \<open>None\<close> is the \<open>default\<close> branch.\<close>
definition uint_digit :: "byte \<Rightarrow> byte option" where
  "uint_digit c =
     (if byte_of CHR ''0'' \<le> c \<and> c \<le> byte_of CHR ''9'' then Some (c - byte_of CHR ''0'')
      else if byte_of CHR ''a'' \<le> lower c \<and> lower c \<le> byte_of CHR ''z''
      then Some (lower c - byte_of CHR ''a'' + 10)
      else None)"

text \<open>The \<open>for _, c := range []byte(s)\<close> loop, with \<open>s0\<close> kept for the error.\<close>
fun parse_uint_loop :: "string \<Rightarrow> string \<Rightarrow> 64 word \<Rightarrow> 64 word go_result" where
  "parse_uint_loop s0 [] n = (n, None)"
| "parse_uint_loop s0 (c # cs) n =
     (case uint_digit (byte_of c) of
        None \<Rightarrow> (0, Some (syntax_error ''ParseUint'' s0))
      | Some d \<Rightarrow>
          if d \<ge> 10 then (0, Some (syntax_error ''ParseUint'' s0))
          else if n \<ge> cutoff10 then (max_val, Some (range_error ''ParseUint'' s0))
          else
            (let n' = n * 10; n1 = n' + ucast d in
             if n1 < n' \<or> n1 > max_val then (max_val, Some (range_error ''ParseUint'' s0))
             else parse_uint_loop s0 cs n1))"

definition parse_uint :: "string \<Rightarrow> 64 word go_result" where
  "parse_uint s =
     (if s = [] then (0, Some (syntax_error ''ParseUint'' s))
      else parse_uint_loop s s 0)"

subsection \<open>ParseInt (base 10, 64 bits)\<close>

text \<open>
  The error of \<open>ParseUint\<close> is re-labelled unless it is a range error, which
  \<open>ParseInt\<close> replaces by its own after clamping.
\<close>
definition parse_int :: "string \<Rightarrow> 64 word go_result" where
  "parse_int s0 =
     (if s0 = [] then (0, Some (syntax_error ''ParseInt'' s0))
      else
        let neg = (hd s0 = CHR ''-'');
            s = (if hd s0 = CHR ''+'' \<or> hd s0 = CHR ''-'' then tl s0 else s0);
            (un, err) = parse_uint s;
            cutoff = push_bit 63 (1 :: 64 word)
        in case err of
             Some (NumError f n e) \<Rightarrow>
               if e \<noteq> ErrRange then (0, Some (NumError ''ParseInt'' s0 e))
               else if \<not> neg \<and> un \<ge> cutoff then (cutoff - 1, Some (range_error ''ParseInt'' s0))
               else if neg \<and> un > cutoff then (- cutoff, Some (range_error ''ParseInt'' s0))
               else (if neg then - un else un, None)
           | _ \<Rightarrow>
               if \<not> neg \<and> un \<ge> cutoff then (cutoff - 1, Some (range_error ''ParseInt'' s0))
               else if neg \<and> un > cutoff then (- cutoff, Some (range_error ''ParseInt'' s0))
               else (if neg then - un else un, None))"

subsection \<open>Atoi\<close>

text \<open>The fast path's digit loop: \<open>ch -= '0'\<close> on a byte, then \<open>n = n*10 + int(ch)\<close>.\<close>
fun atoi_digits :: "string \<Rightarrow> 64 word \<Rightarrow> 64 word option" where
  "atoi_digits [] n = Some n"
| "atoi_digits (c # cs) n =
     (let ch = byte_of c - byte_of CHR ''0'' in
      if ch > 9 then None else atoi_digits cs (n * 10 + ucast ch))"

text \<open>The fast path for strings of 1 to 18 bytes.\<close>
definition atoi_fast :: "string \<Rightarrow> 64 word go_result" where
  "atoi_fast s0 =
     (let signed = (hd s0 = CHR ''-'' \<or> hd s0 = CHR ''+'');
          s = (if signed then tl s0 else s0)
      in if signed \<and> s = [] then (0, Some (syntax_error ''Atoi'' s0))
         else case atoi_digits s 0 of
                None \<Rightarrow> (0, Some (syntax_error ''Atoi'' s0))
              | Some n \<Rightarrow> (if hd s0 = CHR ''-'' then - n else n, None))"

text \<open>The slow path: \<open>ParseInt\<close>, with the error's \<open>Func\<close> set to \<open>Atoi\<close>.\<close>
fun atoi_func :: "go_error \<Rightarrow> go_error" where
  "atoi_func (NumError f n e) = NumError ''Atoi'' n e"
| "atoi_func e = e"

definition atoi_slow :: "string \<Rightarrow> 64 word go_result" where
  "atoi_slow s = (let (i, err) = parse_int s in (i, map_option atoi_func err))"

definition atoi :: "string \<Rightarrow> 64 word go_result" where
  "atoi s = (if 0 < length s \<and> length s < 19 then atoi_fast s else atoi_slow s)"

subsection \<open>ParseBool\<close>

definition parse_bool :: "string \<Rightarrow> bool go_result" where
  "parse_bool str =
     (if str \<in> set [''1'', ''t'', ''T'', ''true'', ''TRUE'', ''True''] then (True, None)
      else if str \<in> set [''0'', ''f'', ''F'', ''false'', ''FALSE'', ''False''] then (False, None)
      else (False, Some (syntax_error ''ParseBool'' str)))"

subsection \<open>Decimal formatting\<close>

text \<open>
  \<open>formatBits\<close> fills a buffer from its end, one digit per step; \<open>format_int\<close> is
  \<open>strconv.Itoa\<close> and \<open>fmt.Sprintf("%d", i)\<close> on a 64-bit integer.
\<close>
fun fmt_digits :: "nat \<Rightarrow> string \<Rightarrow> string" where
  "fmt_digits u acc =
     (let acc' = char_of (48 + u mod 10) # acc in
      if u < 10 then acc' else fmt_digits (u div 10) acc')"

definition format_int :: "64 word \<Rightarrow> string" where
  "format_int i =
     (if sint i < 0 then CHR ''-'' # fmt_digits (nat (- sint i)) []
      else fmt_digits (nat (sint i)) [])"

subsection \<open>Specifications\<close>

text \<open>
  What \<open>ParseUint\<close>, \<open>ParseInt\<close> and \<open>Atoi\<close> compute, stated on the decimal value
  of the longest digit prefix (\<open>takeWhile is_digit\<close>) and on what follows it.
  \<open>uint_spec s0 m cs\<close> is the outcome of the \<open>ParseUint\<close> loop on the rest \<open>cs\<close>
  with accumulator value \<open>m\<close>; \<open>int_spec fn s\<close> the outcome of \<open>ParseInt\<close>
  (\<open>fn = ''ParseInt''\<close>) and of \<open>Atoi\<close> (\<open>fn = ''Atoi''\<close>).
\<close>

definition uint_spec :: "string \<Rightarrow> nat \<Rightarrow> string \<Rightarrow> 64 word go_result" where
  "uint_spec s0 m cs =
     (let p = takeWhile is_digit cs; v = m * 10 ^ length p + dec_val p in
      if 2 ^ 64 \<le> v then (max_val, Some (range_error ''ParseUint'' s0))
      else if dropWhile is_digit cs = [] then (word_of_nat v, None)
      else (0, Some (syntax_error ''ParseUint'' s0)))"

text \<open>The signed 64-bit limits \<open>-1<<63\<close> and \<open>1<<63 - 1\<close> that a range error clamps to.\<close>
definition int_clamp :: "bool \<Rightarrow> 64 word" where
  "int_clamp neg = (if neg then - push_bit 63 1 else push_bit 63 1 - 1)"

definition int_spec :: "string \<Rightarrow> string \<Rightarrow> 64 word go_result" where
  "int_spec fn s =
     (let neg = (s \<noteq> [] \<and> hd s = CHR ''-'');
          ds = (if s \<noteq> [] \<and> (hd s = CHR ''+'' \<or> hd s = CHR ''-'') then tl s else s);
          v = dec_val (takeWhile is_digit ds);
          lim = (if neg then 2 ^ 63 else 2 ^ 63 - 1)
      in if ds = [] then (0, Some (syntax_error fn s))
         else if 2 ^ 64 \<le> v then (int_clamp neg, Some (range_error fn s))
         else if dropWhile is_digit ds \<noteq> [] then (0, Some (syntax_error fn s))
         else if lim < v then (int_clamp neg, Some (range_error fn s))
         else (word_of_int (if neg then - int v else int v), None))"


text \<open>ASCII lower-casing, for the spec's case-insensitive boolean lexicon.\<close>
definition ascii_lower :: "char \<Rightarrow> char" where
  "ascii_lower c = (if 65 \<le> (of_char c :: nat) \<and> (of_char c :: nat) \<le> 90 then char_of (of_char c + (32 :: nat)) else c)"

subsection \<open>Bytes of digits\<close>

declare fmt_digits.simps [simp del]

lemma is_digit_bytes: "(byte_of CHR ''0'' \<le> byte_of c \<and> byte_of c \<le> byte_of CHR ''9'') \<longleftrightarrow> is_digit c"
  by (simp add: byte_of_le_iff is_digit_def)
lemma digit_sub_zero: "is_digit c \<Longrightarrow> byte_of c - byte_of CHR ''0'' = word_of_nat (digit_val c)"
proof -
  assume "is_digit c"
  then have "byte_of CHR ''0'' \<le> byte_of c" by (simp add: byte_of_le_iff is_digit_def)
  then have "unat (byte_of c - byte_of CHR ''0'') = of_char c - 48" by (simp add: unat_sub)
  moreover have "digit_val c < 256" by (simp add: digit_val_def less_imp_diff_less)
  ultimately show ?thesis by (simp add: word_unat_eq_iff digit_val_def unat_of_nat)
qed
lemma fast_digit_check: "(byte_of c - byte_of CHR ''0'' > 9) \<longleftrightarrow> \<not> is_digit c"
  by (auto simp: word_less_nat_alt unat_sub_if_size is_digit_def word_size)
lemma cutoff10_unat: "unat cutoff10 = 1844674407370955162"
  by (simp add: cutoff10_def max_uint64_def)
lemma max_val_eq: "max_val = - 1"
  by (simp add: max_val_def)
lemma ucast_digit: "is_digit c \<Longrightarrow> (ucast (byte_of c - byte_of CHR ''0'') :: 64 word) = word_of_nat (digit_val c)"
proof -
  assume d: "is_digit c"
  then have "digit_val c < 2 ^ 8" using digit_val_lt by fastforce
  then have "take_bit 8 (digit_val c) = digit_val c"
    by (simp only: take_bit_nat_eq_self_iff)
  with d show ?thesis
    by (simp add: digit_sub_zero unsigned_of_nat)
qed

lemma lower_letter_ge10:
  assumes "byte_of CHR ''a'' \<le> x" and "x \<le> byte_of CHR ''z''"
  shows "10 \<le> x - byte_of CHR ''a'' + 10"
proof -
  have "unat (x - byte_of CHR ''a'') = unat x - 97"
    using assms(1) by (simp add: unat_sub)
  moreover have "unat x \<le> 122" using assms(2) by (simp add: word_le_nat_alt)
  ultimately have "unat (x - byte_of CHR ''a'' + 10) = unat x - 97 + 10"
    by (simp add: unat_word_ariths)
  then show ?thesis by (simp add: word_le_nat_alt)
qed

lemma uint_digit_digit: "is_digit c \<Longrightarrow> uint_digit (byte_of c) = Some (byte_of c - byte_of CHR ''0'')"
  by (simp add: uint_digit_def is_digit_bytes)

lemma uint_digit_nondigit:
  "\<not> is_digit c \<Longrightarrow> uint_digit (byte_of c) = None \<or> (\<exists>d. uint_digit (byte_of c) = Some d \<and> 10 \<le> d)"
  by (auto simp: uint_digit_def is_digit_bytes intro: lower_letter_ge10)

lemma parse_uint_loop_nondigit:
  "\<not> is_digit c \<Longrightarrow> parse_uint_loop s0 (c # cs) n = (0, Some (syntax_error ''ParseUint'' s0))"
  using uint_digit_nondigit [of c] by (auto simp: not_le)

lemma not_gt_max_val [simp]: "\<not> x > max_val"
  by (simp add: max_val_eq)

lemma parse_uint_loop_digit:
  "is_digit c \<Longrightarrow> parse_uint_loop s0 (c # cs) n =
     (if n \<ge> cutoff10 then (max_val, Some (range_error ''ParseUint'' s0))
      else let n1 = n * 10 + word_of_nat (digit_val c) in
        if n1 < n * 10 then (max_val, Some (range_error ''ParseUint'' s0))
        else parse_uint_loop s0 cs n1)"
proof -
  assume d: "is_digit c"
  then have "\<not> (10 \<le> byte_of c - byte_of CHR ''0'')"
    using fast_digit_check [of c] by (simp add: not_le word_less_nat_alt word_le_nat_alt)
  with d show ?thesis by (simp add: uint_digit_digit ucast_digit Let_def)
qed
lemma le_mult_pow10: "(m :: nat) \<le> m * 10 ^ k + x"
proof -
  have "m * 1 \<le> m * 10 ^ k" by (rule mult_le_mono2) simp
  then have "m \<le> m * 10 ^ k" by simp
  then show ?thesis by (rule trans_le_add1)
qed

lemma uint_spec_digit:
  assumes "is_digit c"
  shows "uint_spec s0 m (c # cs) = uint_spec s0 (m * 10 + digit_val c) cs"
proof -
  have "m * 10 ^ length (c # takeWhile is_digit cs) + dec_val (c # takeWhile is_digit cs)
      = (m * 10 + digit_val c) * 10 ^ length (takeWhile is_digit cs) + dec_val (takeWhile is_digit cs)"
    by (simp add: dec_val_Cons algebra_simps)
  with assms show ?thesis by (simp add: uint_spec_def Let_def)
qed


lemma parse_uint_loop_spec: "parse_uint_loop s0 cs n = uint_spec s0 (unat n) cs"
proof (induction cs arbitrary: n)
  case Nil
  have "unat n < 2 ^ 64" using unsigned_less [of n] by simp
  then show ?case by (simp add: uint_spec_def)
next
  case (Cons c cs)
  show ?case
  proof (cases "is_digit c")
    case False
    have "unat n < 2 ^ 64" using unsigned_less [of n] by simp
    with False show ?thesis
      by (simp add: parse_uint_loop_nondigit uint_spec_def del: parse_uint_loop.simps)
  next
    case True
    let ?d = "digit_val c"
    have d10: "?d < 10" using True by (rule digit_val_lt)
    have eq: "uint_spec s0 (unat n) (c # cs) = uint_spec s0 (unat n * 10 + ?d) cs"
      using True by (rule uint_spec_digit)
    have big: "uint_spec s0 m cs = (max_val, Some (range_error ''ParseUint'' s0))" if "2 ^ 64 \<le> m" for m
    proof -
      have "m \<le> m * 10 ^ length (takeWhile is_digit cs) + dec_val (takeWhile is_digit cs)"
        by (rule le_mult_pow10)
      with that show ?thesis by (simp add: uint_spec_def Let_def)
    qed
    show ?thesis
    proof (cases "n \<ge> cutoff10")
      case True
      then have "1844674407370955162 \<le> unat n" by (simp add: word_le_nat_alt cutoff10_unat)
      then have "2 ^ 64 \<le> unat n * 10 + ?d" by simp
      with \<open>n \<ge> cutoff10\<close> \<open>is_digit c\<close> show ?thesis
        by (simp add: parse_uint_loop_digit eq big del: parse_uint_loop.simps)
    next
      case False
      then have n_le: "unat n \<le> 1844674407370955161" by (simp add: word_le_nat_alt cutoff10_unat not_le)
      then have m10: "unat (n * 10) = unat n * 10" by (simp add: unat_word_ariths)
      have ud: "unat (word_of_nat ?d :: 64 word) = ?d" using d10 by (simp add: unat_of_nat)
      show ?thesis
      proof (cases "2 ^ 64 \<le> unat n * 10 + ?d")
        case True
        have "unat (n * 10 + word_of_nat ?d) = (unat n * 10 + ?d) mod 2 ^ 64"
          by (simp add: unat_word_ariths(1) m10 ud)
        also have "\<dots> = unat n * 10 + ?d - 2 ^ 64"
          using True n_le d10 by (simp add: le_mod_geq)
        also have "\<dots> < unat (n * 10)" using True n_le d10 m10 by simp
        finally have "n * 10 + word_of_nat ?d < n * 10" by (simp add: word_less_nat_alt)
        with False \<open>is_digit c\<close> True show ?thesis
          by (simp add: parse_uint_loop_digit eq big del: parse_uint_loop.simps)
      next
        case nb: False
        then have u1: "unat (n * 10 + word_of_nat ?d) = unat n * 10 + ?d"
          by (simp add: unat_word_ariths(1) m10 ud)
        then have "\<not> n * 10 + word_of_nat ?d < n * 10" by (simp add: word_less_nat_alt m10)
        with False \<open>is_digit c\<close> show ?thesis
          by (simp add: parse_uint_loop_digit eq Cons.IH u1 del: parse_uint_loop.simps)
      qed
    qed
  qed
qed
lemma parse_uint_spec:
  "parse_uint s = (if s = [] then (0, Some (syntax_error ''ParseUint'' s)) else uint_spec s 0 s)"
  by (simp add: parse_uint_def parse_uint_loop_spec)

lemma cutoff_le_word_of_nat:
  "v < 2 ^ 64 \<Longrightarrow> (9223372036854775808 :: 64 word) \<le> word_of_nat v \<longleftrightarrow> 2 ^ 63 \<le> v"
  by (simp add: word_le_nat_alt unat_of_nat)

lemma cutoff_less_word_of_nat:
  "v < 2 ^ 64 \<Longrightarrow> (9223372036854775808 :: 64 word) < word_of_nat v \<longleftrightarrow> 2 ^ 63 < v"
  by (simp add: word_less_nat_alt unat_of_nat)

lemma cutoff_le_max_val: "(9223372036854775808 :: 64 word) \<le> max_val" "(9223372036854775808 :: 64 word) < max_val"
  by (simp_all add: max_val_eq)

lemma parse_int_spec: "parse_int s = int_spec ''ParseInt'' s"
proof (cases "s = []")
  case True
  then show ?thesis by (simp add: parse_int_def int_spec_def)
next
  case False
  define neg where "neg = (hd s = CHR ''-'')"
  define ds where "ds = (if hd s = CHR ''+'' \<or> hd s = CHR ''-'' then tl s else s)"
  define v where "v = dec_val (takeWhile is_digit ds)"
  have is_: "int_spec ''ParseInt'' s =
     (if ds = [] then (0, Some (syntax_error ''ParseInt'' s))
      else if 2 ^ 64 \<le> v then (int_clamp neg, Some (range_error ''ParseInt'' s))
      else if dropWhile is_digit ds \<noteq> [] then (0, Some (syntax_error ''ParseInt'' s))
      else if (if neg then 2 ^ 63 else 2 ^ 63 - 1) < v then (int_clamp neg, Some (range_error ''ParseInt'' s))
      else (word_of_int (if neg then - int v else int v), None))"
    using False by (simp add: int_spec_def neg_def ds_def v_def Let_def)
  note pint = parse_int_def Let_def ds_def [symmetric]
  consider (empty) "ds = []"
    | (big) "ds \<noteq> []" "2 ^ 64 \<le> v"
    | (junk) "ds \<noteq> []" "v < 2 ^ 64" "dropWhile is_digit ds \<noteq> []"
    | (num) "ds \<noteq> []" "v < 2 ^ 64" "dropWhile is_digit ds = []"
    by force
  then show ?thesis
  proof cases
    case empty
    then show ?thesis
      using False unfolding pint unfolding neg_def [symmetric] by (simp add: is_ parse_uint_spec syntax_error_def)
  next
    case big
    then have "parse_uint ds = (max_val, Some (range_error ''ParseUint'' ds))"
      by (simp add: parse_uint_spec uint_spec_def v_def)
    with big False show ?thesis
      unfolding pint unfolding neg_def [symmetric] by (simp add: is_ range_error_def int_clamp_def max_val_eq)
  next
    case junk
    then have "parse_uint ds = (0, Some (syntax_error ''ParseUint'' ds))"
      by (simp add: parse_uint_spec uint_spec_def v_def)
    with junk False show ?thesis
      unfolding pint unfolding neg_def [symmetric] by (simp add: is_ syntax_error_def)
  next
    case num
    then have "parse_uint ds = (word_of_nat v, None)"
      by (simp add: parse_uint_spec uint_spec_def v_def)
    with num False show ?thesis
      unfolding pint unfolding neg_def [symmetric] by (auto simp: is_ int_clamp_def cutoff_le_word_of_nat cutoff_less_word_of_nat not_le)
  qed
qed

lemma int_spec_relabel:
  "(case int_spec fn s of (i, err) \<Rightarrow> (i, map_option atoi_func err)) = int_spec ''Atoi'' s"
  by (simp add: int_spec_def Let_def syntax_error_def range_error_def)

lemma atoi_slow_spec: "atoi_slow s = int_spec ''Atoi'' s"
  by (simp add: atoi_slow_def parse_int_spec int_spec_relabel)

lemma atoi_digits_eq:
  "atoi_digits cs n =
     (if list_all is_digit cs then Some (n * 10 ^ length cs + word_of_nat (dec_val cs)) else None)"
proof (induction cs arbitrary: n)
  case Nil
  then show ?case by simp
next
  case (Cons c cs)
  show ?case
  proof (cases "is_digit c")
    case True
    then have "\<not> byte_of c - byte_of CHR ''0'' > 9" by (simp add: fast_digit_check)
    with True show ?thesis
      by (simp add: Cons.IH ucast_digit dec_val_Cons algebra_simps)
  next
    case False
    then show ?thesis by (simp add: fast_digit_check)
  qed
qed

lemma list_all_takeWhile: "list_all P (takeWhile P xs)"
  by (induction xs) auto

lemma dec_val_takeWhile_lt:
  "dec_val (takeWhile is_digit ds) < 10 ^ length ds"
proof -
  have "dec_val (takeWhile is_digit ds) < 10 ^ length (takeWhile is_digit ds)"
    by (rule dec_val_lt) (rule list_all_takeWhile)
  also have "\<dots> \<le> 10 ^ length ds" by (simp add: length_takeWhile_le)
  finally show ?thesis .
qed

lemma atoi_fast_spec:
  assumes "0 < length s" and "length s < 19"
  shows "atoi_fast s = int_spec ''Atoi'' s"
proof -
  define signed where "signed = (hd s = CHR ''-'' \<or> hd s = CHR ''+'')"
  define ds where "ds = (if signed then tl s else s)"
  have ne: "s \<noteq> []" using assms(1) by simp
  have len: "length ds \<le> 18" using assms(2) unfolding ds_def by (cases signed) auto
  have "(10 :: nat) ^ length ds \<le> 10 ^ 18"
    using len by (rule power_increasing) simp
  then have "dec_val (takeWhile is_digit ds) < 10 ^ 18"
    using dec_val_takeWhile_lt [of ds] by linarith
  then have small: "dec_val (takeWhile is_digit ds) < 2 ^ 63 - 1" by simp
  have fs: "atoi_fast s =
     (if signed \<and> ds = [] then (0, Some (syntax_error ''Atoi'' s))
      else case atoi_digits ds 0 of
             None \<Rightarrow> (0, Some (syntax_error ''Atoi'' s))
           | Some n \<Rightarrow> (if hd s = CHR ''-'' then - n else n, None))"
    by (simp add: atoi_fast_def signed_def ds_def Let_def)
  have is_: "int_spec ''Atoi'' s =
     (let neg = (hd s = CHR ''-''); v = dec_val (takeWhile is_digit ds);
          lim = (if neg then 2 ^ 63 else 2 ^ 63 - 1)
      in if ds = [] then (0, Some (syntax_error ''Atoi'' s))
         else if 2 ^ 64 \<le> v then (int_clamp neg, Some (range_error ''Atoi'' s))
         else if dropWhile is_digit ds \<noteq> [] then (0, Some (syntax_error ''Atoi'' s))
         else if lim < v then (int_clamp neg, Some (range_error ''Atoi'' s))
         else (word_of_int (if neg then - int v else int v), None))"
    using ne by (simp add: int_spec_def ds_def signed_def Let_def disj_commute)
  show ?thesis
  proof (cases "ds = []")
    case True
    then have "signed" using ne by (auto simp: ds_def split: if_splits)
    with True show ?thesis by (simp add: fs is_)
  next
    case False
    show ?thesis
    proof (cases "list_all is_digit ds")
      case True
      then have tw: "takeWhile is_digit ds = ds" and dw: "dropWhile is_digit ds = []"
        by (simp_all add: list_all_iff)
      from small have "dec_val ds < 2 ^ 63 - 1" by (simp add: tw)
      with True False show ?thesis
        by (simp add: fs is_ atoi_digits_eq tw dw Let_def of_int_minus)
    next
      case nd: False
      then have "dropWhile is_digit ds \<noteq> []" by (simp add: list_all_iff)
      with nd False small show ?thesis
        by (simp add: fs is_ atoi_digits_eq Let_def)
    qed
  qed
qed

theorem atoi_eq_spec: "atoi s = int_spec ''Atoi'' s"
  by (simp add: atoi_def atoi_fast_spec atoi_slow_spec)

subsection \<open>The two paths of Atoi agree\<close>

text \<open>C10: for strings of 1 to 18 bytes, the fast path of Atoi computes exactly what the slow path (ParseInt) computes, value and error alike.\<close>
theorem atoi_fast_eq_slow:
  "0 < length s \<Longrightarrow> length s < 19 \<Longrightarrow> atoi_fast s = atoi_slow s"
  by (simp add: atoi_fast_spec atoi_slow_spec)

subsection \<open>Formatting and parsing are inverse\<close>

lemma fmt_digits_step:
  "fmt_digits u acc = (if u < 10 then char_of (48 + u mod 10) # acc
                       else fmt_digits (u div 10) (char_of (48 + u mod 10) # acc))"
  by (subst fmt_digits.simps) (simp add: Let_def)

lemma fmt_digits_acc: "fmt_digits u acc = fmt_digits u [] @ acc"
proof (induction u arbitrary: acc rule: less_induct)
  case (less u)
  show ?case
  proof (cases "u < 10")
    case True
    then show ?thesis by (simp add: fmt_digits_step [of u acc] fmt_digits_step [of u "[]"])
  next
    case False
    then have lt: "u div 10 < u" by simp
    from False show ?thesis
      by (simp add: fmt_digits_step [of u acc] fmt_digits_step [of u "[]"] less.IH [OF lt, of "_ # acc"] less.IH [OF lt, of "[_]"])
  qed
qed

lemma char_digit: "(n :: nat) < 10 \<Longrightarrow> is_digit (char_of (48 + n)) \<and> digit_val (char_of (48 + n)) = n"
  by (simp add: is_digit_def digit_val_def)

lemma fmt_digits_props:
  "list_all is_digit (fmt_digits u []) \<and> fmt_digits u [] \<noteq> [] \<and> dec_val (fmt_digits u []) = u"
proof (induction u rule: less_induct)
  case (less u)
  show ?case
  proof (cases "u < 10")
    case True
    then show ?thesis by (simp add: fmt_digits_step [of u "[]"] char_digit dec_val_def)
  next
    case False
    then have lt: "u div 10 < u" by simp
    have "fmt_digits u [] = fmt_digits (u div 10) [] @ [char_of (48 + u mod 10)]"
      using False by (simp add: fmt_digits_step [of u "[]"] fmt_digits_acc [of "u div 10" "[char_of (48 + u mod 10)]"])
    moreover have "u mod 10 < 10" by simp
    ultimately show ?thesis using less.IH [OF lt]
      by (simp add: char_digit)
  qed
qed

lemma sign_not_digit: "\<not> is_digit CHR ''-''" "\<not> is_digit CHR ''+''"
  by (simp_all add: is_digit_def)

lemma int_spec_digits:
  assumes "list_all is_digit ds" and "ds \<noteq> []" and "dec_val ds < 2 ^ 63"
  shows "int_spec fn ds = (word_of_nat (dec_val ds), None)"
proof -
  have "is_digit (hd ds)" using assms(1,2) by (cases ds) auto
  then have hd: "hd ds \<noteq> CHR ''-'' \<and> hd ds \<noteq> CHR ''+''" using sign_not_digit by auto
  have tw: "takeWhile is_digit ds = ds" using assms(1) by (simp add: list_all_iff)
  show ?thesis using assms hd
    by (simp add: int_spec_def Let_def tw list_all_iff del: takeWhile_eq_all_conv)
qed

lemma int_spec_neg_digits:
  assumes "list_all is_digit ds" and "ds \<noteq> []" and "dec_val ds \<le> 2 ^ 63"
  shows "int_spec fn (CHR ''-'' # ds) = (- word_of_nat (dec_val ds), None)"
proof -
  have tw: "takeWhile is_digit ds = ds" using assms(1) by (simp add: list_all_iff)
  show ?thesis using assms
    by (simp add: int_spec_def Let_def tw list_all_iff del: takeWhile_eq_all_conv)
qed

theorem atoi_format_int: "atoi (format_int w) = (w, None)"
proof (cases "sint w < 0")
  case True
  define u where "u = nat (- sint w)"
  have "- (2 ^ 63) \<le> sint w" using sint_ge [of w] by simp
  then have "u \<le> 2 ^ 63" using True by (simp add: u_def nat_le_iff)
  then have "atoi (format_int w) = (- word_of_nat u, None)"
    using True fmt_digits_props [of u]
    by (simp add: atoi_eq_spec format_int_def u_def [symmetric] int_spec_neg_digits)
  also have "- word_of_nat u = w"
    using True by (simp add: u_def of_nat_nat)
  finally show ?thesis .
next
  case False
  define u where "u = nat (sint w)"
  have "sint w < 2 ^ 63" using sint_lt [of w] by simp
  then have "u < 2 ^ 63" using False by (simp add: u_def nat_less_iff)
  then have "atoi (format_int w) = (word_of_nat u, None)"
    using False fmt_digits_props [of u]
    by (simp add: atoi_eq_spec format_int_def u_def [symmetric] int_spec_digits)
  also have "word_of_nat u = w"
    using False by (simp add: u_def of_nat_nat)
  finally show ?thesis .
qed

subsection \<open>Bounds of the fast path\<close>

lemma sint_word_of_nat_small: "v < 2 ^ 63 \<Longrightarrow> sint (word_of_nat v :: 64 word) = int v"
proof -
  assume v: "v < 2 ^ 63"
  have "sint (word_of_int (int v) :: 64 word) = (int v + 2 ^ 63) mod 2 ^ 64 - 2 ^ 63"
    using int_word_sint [where 'a = 64, of "int v"] by simp
  also have "\<dots> = int v" using v by simp
  finally show ?thesis by simp
qed

text \<open>C11: on at most 18 decimal digits, the fast path digit loop cannot overflow: it returns the digits' decimal value as a signed 64-bit integer.\<close>
theorem atoi_digits_exact:
  assumes "list_all is_digit cs" and "length cs < 19"
  shows "\<exists>w. atoi_digits cs 0 = Some w \<and> sint w = int (dec_val cs)"
proof -
  have "(10 :: nat) ^ length cs \<le> 10 ^ 18" using assms(2) by (intro power_increasing) simp_all
  moreover have "(10 :: nat) ^ 18 < 2 ^ 63" by simp
  ultimately have "dec_val cs < 2 ^ 63" using dec_val_lt [OF assms(1)] by linarith
  then show ?thesis using assms(1) by (simp add: atoi_digits_eq sint_word_of_nat_small)
qed


lemma ascii_lower_eq:
  assumes "(of_char d :: nat) \<notin> {65..90}" and "97 \<le> (of_char d :: nat)" and "(of_char d :: nat) \<le> 122"
  shows "ascii_lower c = d \<longleftrightarrow> c = d \<or> c = char_of (of_char d - (32 :: nat))"
proof
  assume "ascii_lower c = d"
  then show "c = d \<or> c = char_of (of_char d - (32 :: nat))"
    by (auto simp: ascii_lower_def split: if_splits)
next
  assume "c = d \<or> c = char_of (of_char d - (32 :: nat))"
  then show "ascii_lower c = d" using assms by (auto simp: ascii_lower_def)
qed

subsection \<open>The boolean lexicon\<close>

lemma upper_letters:
  "char_of (84 :: nat) = CHR ''T''" "char_of (82 :: nat) = CHR ''R''" "char_of (85 :: nat) = CHR ''U''"
  "char_of (69 :: nat) = CHR ''E''" "char_of (70 :: nat) = CHR ''F''" "char_of (65 :: nat) = CHR ''A''"
  "char_of (76 :: nat) = CHR ''L''" "char_of (83 :: nat) = CHR ''S''"
  by (simp_all add: char_of_eq_iff)

lemma ascii_lower_letters:
  "ascii_lower c = CHR ''t'' \<longleftrightarrow> c = CHR ''t'' \<or> c = CHR ''T''"
  "ascii_lower c = CHR ''r'' \<longleftrightarrow> c = CHR ''r'' \<or> c = CHR ''R''"
  "ascii_lower c = CHR ''u'' \<longleftrightarrow> c = CHR ''u'' \<or> c = CHR ''U''"
  "ascii_lower c = CHR ''e'' \<longleftrightarrow> c = CHR ''e'' \<or> c = CHR ''E''"
  "ascii_lower c = CHR ''f'' \<longleftrightarrow> c = CHR ''f'' \<or> c = CHR ''F''"
  "ascii_lower c = CHR ''a'' \<longleftrightarrow> c = CHR ''a'' \<or> c = CHR ''A''"
  "ascii_lower c = CHR ''l'' \<longleftrightarrow> c = CHR ''l'' \<or> c = CHR ''L''"
  "ascii_lower c = CHR ''s'' \<longleftrightarrow> c = CHR ''s'' \<or> c = CHR ''S''"
  by (simp_all add: ascii_lower_eq upper_letters)

text \<open>C9: ParseBool accepts exactly three casings of true and false (lower, title, upper); any other casing of these words, such as tRUE, is a syntax error, although the spec calls the lexicon case-insensitive.\<close>
theorem parse_bool_casings:
  assumes "map ascii_lower s \<in> {''true'', ''false''}"
  shows "snd (parse_bool s) = None \<longleftrightarrow> s \<in> {''true'', ''True'', ''TRUE'', ''false'', ''False'', ''FALSE''}"
proof -
  from assms consider (t) "map ascii_lower s = ''true''" | (f) "map ascii_lower s = ''false''" by blast
  then show ?thesis
  proof cases
    case t
    then show ?thesis by (auto simp: map_eq_Cons_conv ascii_lower_letters parse_bool_def)
  next
    case f
    then show ?thesis by (auto simp: map_eq_Cons_conv ascii_lower_letters parse_bool_def)
  qed
qed
subsection \<open>Length of the decimal form\<close>

lemma length_fmt_digits: "u < 10 ^ k \<Longrightarrow> 0 < k \<Longrightarrow> length (fmt_digits u []) \<le> k"
proof (induction u arbitrary: k rule: less_induct)
  case (less u)
  show ?case
  proof (cases "u < 10")
    case True
    then show ?thesis using less.prems(2) by (simp add: fmt_digits_step [of u "[]"])
  next
    case False
    then obtain k' where k: "k = Suc k'" using less.prems by (cases k) auto
    have "u div 10 < 10 ^ k'" using less.prems(1) k by (simp add: less_mult_imp_div_less)
    moreover have "0 < k'" using False less.prems(1) k by (cases k') auto
    moreover have "fmt_digits u [] = fmt_digits (u div 10) [] @ [char_of (48 + u mod 10)]"
      using False by (simp add: fmt_digits_step [of u "[]"] fmt_digits_acc [of "u div 10" "[char_of (48 + u mod 10)]"])
    ultimately show ?thesis using less.IH [of "u div 10" k'] False k by simp
  qed
qed


lemma nl_not_digit: "\<not> is_digit CHR ''\<newline>''"
  by (simp add: is_digit_def)


lemma length_format_int: "length (format_int w) \<le> 20"
proof -
  have "nat (- sint w) < 10 ^ 19" "nat (sint w) < 10 ^ 19"
    using sint_ge [of w] sint_lt [of w] by simp_all
  then show ?thesis
    using length_fmt_digits [of "nat (- sint w)" 19] length_fmt_digits [of "nat (sint w)" 19]
    by (simp add: format_int_def)
qed


lemma int_spec_kind: "snd (int_spec fn s) = Some e \<Longrightarrow> kind_of e = ParseError"
  by (auto simp: int_spec_def Let_def split: if_splits)


subsection \<open>Instances\<close>

theorem atoi_fast_eq_slow_witness: "atoi_fast ''12'' = atoi_slow ''12''"
  using atoi_fast_eq_slow [of "''12''"] by simp


theorem atoi_digits_exact_witness: "\<exists>w. atoi_digits ''12'' 0 = Some w \<and> sint w = 12"
  using atoi_digits_exact [of "''12''"] by (simp add: is_digit_def dec_val_def digit_val_def)



theorem parse_bool_casings_witness:
  "map ascii_lower ''tRUE'' \<in> {''true'', ''false''} \<and> snd (parse_bool ''tRUE'') \<noteq> None"
proof -
  have h: "map ascii_lower ''tRUE'' = ''true''" by code_simp
  show ?thesis using parse_bool_casings [of "''tRUE''"] h by simp
qed


end
