(* ===== verification/Bufio.thy ===== *)
theory Bufio
  imports Prelude
begin

text \<open>
  Standard input and the \<open>bufio.Reader\<close> that \<open>ReadString\<close> wraps around it.

  Standard input is a sequence of read results: \<open>Chunk c\<close> is the data one
  \<open>read(2)\<close> returns when the caller's buffer is large enough (a pipe returns what its
  writer wrote, a terminal one line), \<open>Fault m\<close> a failing read, and the end of the
  list the end of the stream (\<open>read(2)\<close> returns 0, which \<open>os.File.Read\<close> reports
  as \<open>io.EOF\<close>). A read into a buffer of \<open>k\<close> bytes takes at most \<open>k\<close> bytes of
  the next chunk and leaves the rest for the next read.

  A \<open>bufio.Reader\<close> of the default size (4096 bytes) is the record of its unread
  buffered bytes (\<open>b.buf[b.r:b.w]\<close>; the slide of \<open>fill\<close> to the start of the
  buffer is implicit) and its pending error \<open>b.err\<close>. \<open>fill\<close>, \<open>ReadSlice\<close>,
  \<open>collectFragments\<close> and \<open>ReadString\<close> follow the Go library
  (\<open>bufio/bufio.go\<close>). The fields \<open>lastByte\<close> and \<open>lastRuneSize\<close>, which only
  \<open>UnreadByte\<close> and \<open>UnreadRune\<close> read, are not modelled; nor is the panic of
  \<open>fill\<close> on a full buffer, which \<open>ReadSlice\<close> never reaches since it fills only a
  buffer that is not full.
\<close>

subsection \<open>Standard input\<close>

datatype in_event = Chunk string | Fault string

type_synonym stdin = "in_event list"

text \<open>\<open>os.File.Read(p)\<close> with \<open>len(p) = k\<close> on standard input.\<close>
fun os_read :: "nat \<Rightarrow> stdin \<Rightarrow> string \<times> go_error option \<times> stdin" where
  "os_read k [] = ([], Some EOF, [])"
| "os_read k (Chunk c # rest) =
     (if length c \<le> k then (c, None, rest) else (take k c, None, Chunk (drop k c) # rest))"
| "os_read k (Fault m # rest) = ([], Some (OsError m), rest)"

subsection \<open>The reader\<close>

record reader =
  rbuf :: string
  rerr :: "go_error option"

definition default_buf_size :: nat where
  "default_buf_size = 4096"

definition max_consecutive_empty_reads :: nat where
  "max_consecutive_empty_reads = 100"

text \<open>\<open>bufio.NewReader(os.Stdin)\<close>: an empty buffer and no pending error.\<close>
definition new_reader :: reader where
  "new_reader = \<lparr>rbuf = [], rerr = None\<rparr>"

text \<open>\<open>fill\<close>: read new data, trying at most \<open>maxConsecutiveEmptyReads\<close> times.\<close>
fun fill_loop :: "nat \<Rightarrow> reader \<Rightarrow> stdin \<Rightarrow> reader \<times> stdin" where
  "fill_loop 0 rd sin = (rd\<lparr>rerr := Some ErrNoProgress\<rparr>, sin)"
| "fill_loop (Suc i) rd sin =
     (let (data, e, sin') = os_read (default_buf_size - length (rbuf rd)) sin;
          rd' = rd\<lparr>rbuf := rbuf rd @ data\<rparr>
      in if e \<noteq> None then (rd'\<lparr>rerr := e\<rparr>, sin')
         else if data \<noteq> [] then (rd', sin')
         else fill_loop i rd' sin')"

definition fill :: "reader \<Rightarrow> stdin \<Rightarrow> reader \<times> stdin" where
  "fill rd sin = fill_loop max_consecutive_empty_reads rd sin"

text \<open>
  \<open>ReadSlice('\n')\<close>: \<open>s\<close> is the search start (the part of the buffer already
  scanned); the result is the fragment and the error, with the new reader and input.
\<close>
function read_slice ::
  "nat \<Rightarrow> reader \<Rightarrow> stdin \<Rightarrow> (string \<times> go_error option) \<times> reader \<times> stdin" where
  "read_slice s rd sin =
     (let i = index_byte CHR ''\<newline>'' (drop s (rbuf rd)) in
      if 0 \<le> i then
        (let j = nat i + s in
         ((take (j + 1) (rbuf rd), None), rd\<lparr>rbuf := drop (j + 1) (rbuf rd)\<rparr>, sin))
      else if rerr rd \<noteq> None then ((rbuf rd, rerr rd), rd\<lparr>rbuf := [], rerr := None\<rparr>, sin)
      else if default_buf_size \<le> length (rbuf rd) then
        ((rbuf rd, Some ErrBufferFull), rd\<lparr>rbuf := []\<rparr>, sin)
      else (case fill rd sin of (rd', sin') \<Rightarrow> read_slice (length (rbuf rd)) rd' sin'))"
  by pat_completeness auto

text \<open>\<open>collectFragments('\n')\<close>: the full buffers met before the final fragment.\<close>
function collect_fragments ::
  "string list \<Rightarrow> reader \<Rightarrow> stdin \<Rightarrow> (string list \<times> string \<times> go_error option) \<times> reader \<times> stdin" where
  "collect_fragments full rd sin =
     (case read_slice 0 rd sin of ((frag, e), rd', sin') \<Rightarrow>
        if e = None then ((full, frag, None), rd', sin')
        else if e \<noteq> Some ErrBufferFull then ((full, frag, e), rd', sin')
        else collect_fragments (full @ [frag]) rd' sin')"
  by pat_completeness auto

text \<open>\<open>(*Reader).ReadString('\n')\<close>: the full buffers and the fragment, concatenated.\<close>
definition bufio_read_string :: "reader \<Rightarrow> stdin \<Rightarrow> string go_result \<times> reader \<times> stdin" where
  "bufio_read_string rd sin =
     (case collect_fragments [] rd sin of ((full, frag, e), rd', sin') \<Rightarrow>
        ((concat full @ frag, e), rd', sin'))"

subsection \<open>Measures and the stream's content\<close>

fun ev_size :: "in_event \<Rightarrow> nat" where
  "ev_size (Chunk c) = Suc (length c)"
| "ev_size (Fault m) = 1"

definition stdin_size :: "stdin \<Rightarrow> nat" where
  "stdin_size sin = sum_list (map ev_size sin)"

text \<open>The bytes the stream delivers before its first failing read.\<close>
fun stream_text :: "stdin \<Rightarrow> string" where
  "stream_text [] = []"
| "stream_text (Chunk c # rest) = c @ stream_text rest"
| "stream_text (Fault m # rest) = []"

text \<open>How the stream ends for a reader that reads it all: \<open>io.EOF\<close> or the fault.\<close>
fun stream_end :: "stdin \<Rightarrow> go_error" where
  "stream_end [] = EOF"
| "stream_end (Chunk c # rest) = stream_end rest"
| "stream_end (Fault m # rest) = OsError m"

text \<open>What is left of the stream once a reader has met its end: after a fault, the rest.\<close>
fun after_end :: "stdin \<Rightarrow> stdin" where
  "after_end [] = []"
| "after_end (Chunk c # rest) = after_end rest"
| "after_end (Fault m # rest) = rest"

text \<open>Every chunk carries data: \<open>read(2)\<close> on a pipe or terminal returns 0 only at the end.\<close>
definition wf_stdin :: "stdin \<Rightarrow> bool" where
  "wf_stdin sin \<longleftrightarrow> (\<forall>c. Chunk c \<in> set sin \<longrightarrow> c \<noteq> [])"

subsection \<open>Termination of \<open>ReadSlice\<close> and \<open>collectFragments\<close>\<close>

text \<open>
  \<open>ReadSlice\<close> loops while \<open>fill\<close> makes progress: each round either consumes input
  or sets the pending error, which ends the next round. \<open>collectFragments\<close> loops on
  full buffers, each of which consumes 4096 bytes.
\<close>

lemma os_read_size:
  "os_read k sin = (data, e, sin') \<Longrightarrow> stdin_size sin' + length data \<le> stdin_size sin"
  by (cases "(k, sin)" rule: os_read.cases) (auto simp: stdin_size_def split: if_splits)

lemma fill_loop_size:
  "fill_loop i rd sin = (rd', sin') \<Longrightarrow>
     stdin_size sin' + length (rbuf rd') \<le> stdin_size sin + length (rbuf rd) \<and>
     length (rbuf rd) \<le> length (rbuf rd') \<and>
     (rerr rd' = None \<longrightarrow> length (rbuf rd) < length (rbuf rd'))"
proof (induction i arbitrary: rd sin)
  case 0
  then show ?case by auto
next
  case (Suc i)
  obtain data e sin1 where rd: "os_read (default_buf_size - length (rbuf rd)) sin = (data, e, sin1)"
    by (cases "os_read (default_buf_size - length (rbuf rd)) sin") auto
  have sz: "stdin_size sin1 + length data \<le> stdin_size sin" using rd by (rule os_read_size)
  show ?case
  proof (cases "e \<noteq> None \<or> data \<noteq> []")
    case True
    with Suc.prems rd sz show ?thesis by (auto simp: Let_def split: if_splits)
  next
    case False
    then have "fill_loop i (rd\<lparr>rbuf := rbuf rd @ data\<rparr>) sin1 = (rd', sin')"
      using Suc.prems rd by (simp add: Let_def)
    from Suc.IH [OF this] False sz show ?thesis by simp
  qed
qed

lemma fill_size:
  "fill rd sin = (rd', sin') \<Longrightarrow>
     stdin_size sin' + length (rbuf rd') \<le> stdin_size sin + length (rbuf rd) \<and>
     length (rbuf rd) \<le> length (rbuf rd') \<and>
     (rerr rd' = None \<longrightarrow> length (rbuf rd) < length (rbuf rd'))"
  unfolding fill_def by (rule fill_loop_size)

lemma fill_measure:
  "rerr rd = None \<Longrightarrow>
     (case fill rd sin of (rd', sin') \<Rightarrow> 2 * stdin_size sin' + (if rerr rd' = None then 1 else 0))
       < Suc (2 * stdin_size sin)"
  using fill_size [of rd sin] by (auto split: prod.split)


termination read_slice
  by (relation "measure (\<lambda>(s, rd, sin). 2 * stdin_size sin + (if rerr rd = None then 1 else 0))")
    (simp_all add: fill_measure)
lemma os_read_err: "os_read k sin = (data, e, sin') \<Longrightarrow> e \<noteq> Some ErrBufferFull"
  by (cases "(k, sin)" rule: os_read.cases) (auto split: if_splits)

lemma fill_loop_rerr:
  "fill_loop i rd sin = (rd', sin') \<Longrightarrow> rerr rd' = rerr rd \<or> rerr rd' \<noteq> Some ErrBufferFull"
proof (induction i arbitrary: rd sin)
  case 0
  then show ?case by auto
next
  case (Suc i)
  obtain data e sin1 where rd: "os_read (default_buf_size - length (rbuf rd)) sin = (data, e, sin1)"
    by (cases "os_read (default_buf_size - length (rbuf rd)) sin") auto
  then have "e \<noteq> Some ErrBufferFull" by (rule os_read_err)
  with Suc rd show ?case by (auto simp: Let_def split: if_splits)
qed

lemma fill_rerr: "fill rd sin = (rd', sin') \<Longrightarrow> rerr rd' = rerr rd \<or> rerr rd' \<noteq> Some ErrBufferFull"
  unfolding fill_def by (rule fill_loop_rerr)

lemma read_slice_size:
  "read_slice s rd sin = ((frag, e), rd', sin') \<Longrightarrow>
     stdin_size sin' + length (rbuf rd') + length frag \<le> stdin_size sin + length (rbuf rd) \<and>
     (e = Some ErrBufferFull \<longrightarrow> rerr rd' = None \<and>
        (rerr rd = Some ErrBufferFull \<or> (rerr rd = None \<and> default_buf_size \<le> length frag)))"
proof (induction s rd sin arbitrary: frag e rd' sin' rule: read_slice.induct)
  case (1 s rd sin)
  let ?i = "index_byte CHR ''\<newline>'' (drop s (rbuf rd))"
  show ?case
  proof (cases "0 \<le> ?i")
    case True
    with "1.prems" show ?thesis by (auto simp: Let_def)
  next
    case nf: False
    show ?thesis
    proof (cases "rerr rd \<noteq> None")
      case True
      with nf "1.prems" show ?thesis by (auto simp: Let_def)
    next
      case ok: False
      show ?thesis
      proof (cases "default_buf_size \<le> length (rbuf rd)")
        case True
        with nf ok "1.prems" show ?thesis by (auto simp: Let_def)
      next
        case nfull: False
        obtain rd1 sin1 where f: "fill rd sin = (rd1, sin1)" by (cases "fill rd sin") auto
        with nf ok nfull "1.prems" have rs: "read_slice (length (rbuf rd)) rd1 sin1 = ((frag, e), rd', sin')"
          by (simp add: Let_def)
        have IH: "stdin_size sin' + length (rbuf rd') + length frag \<le> stdin_size sin1 + length (rbuf rd1) \<and>
          (e = Some ErrBufferFull \<longrightarrow> rerr rd' = None \<and>
            (rerr rd1 = Some ErrBufferFull \<or> (rerr rd1 = None \<and> default_buf_size \<le> length frag)))"
          by (rule "1.IH" [OF refl nf ok nfull f [symmetric] rs])
        have "stdin_size sin1 + length (rbuf rd1) \<le> stdin_size sin + length (rbuf rd)"
          using fill_size [OF f] by simp
        moreover have "rerr rd1 \<noteq> Some ErrBufferFull" using fill_rerr [OF f] ok by auto
        ultimately show ?thesis using IH ok by auto
      qed
    qed
  qed
qed

lemma read_slice_full_measure:
  "read_slice s rd sin = ((frag, Some ErrBufferFull), rd', sin') \<Longrightarrow>
     stdin_size sin' + length (rbuf rd') + (if rerr rd' = None then 0 else 1)
       < stdin_size sin + length (rbuf rd) + (if rerr rd = None then 0 else 1)"
  using read_slice_size [of s rd sin frag "Some ErrBufferFull" rd' sin']
  by (auto simp: default_buf_size_def)


termination collect_fragments
  by (relation "measure (\<lambda>(full, rd, sin). stdin_size sin + length (rbuf rd) + (if rerr rd = None then 0 else 1))")
    (auto simp del: read_slice.simps dest!: sym [THEN read_slice_full_measure])


subsection \<open>What \<open>ReadString\<close> returns\<close>

lemma fill_unfold:
  "fill rd sin =
     (let (data, e, sin') = os_read (default_buf_size - length (rbuf rd)) sin;
          rd' = rd\<lparr>rbuf := rbuf rd @ data\<rparr>
      in if e \<noteq> None then (rd'\<lparr>rerr := e\<rparr>, sin')
         else if data \<noteq> [] then (rd', sin')
         else fill_loop 99 rd' sin')" (is "_ = ?rhs")
proof -
  have "fill rd sin = fill_loop (Suc 99) rd sin"
    by (simp add: fill_def max_consecutive_empty_reads_def)
  also have "\<dots> = ?rhs" by (rule fill_loop.simps(2))
  finally show ?thesis .
qed

lemma fill_Nil: "fill rd [] = (rd\<lparr>rerr := Some EOF\<rparr>, [])"
  by (simp add: fill_unfold)

lemma fill_Fault: "fill rd (Fault m # rest) = (rd\<lparr>rerr := Some (OsError m)\<rparr>, rest)"
  by (simp add: fill_unfold)

lemma fill_Chunk:
  assumes "c \<noteq> []" and "length (rbuf rd) < default_buf_size"
  shows "fill rd (Chunk c # rest) =
    (let k = default_buf_size - length (rbuf rd) in
     (rd\<lparr>rbuf := rbuf rd @ take k c\<rparr>, if length c \<le> k then rest else Chunk (drop k c) # rest))"
  using assms by (simp add: fill_unfold Let_def)

lemma wf_stdin_simps [simp]:
  "wf_stdin []"
  "wf_stdin (Chunk c # rest) \<longleftrightarrow> c \<noteq> [] \<and> wf_stdin rest"
  "wf_stdin (Fault m # rest) \<longleftrightarrow> wf_stdin rest"
  by (auto simp: wf_stdin_def)
lemma takeWhile_neq_split:
  "x \<notin> set (take s xs) \<Longrightarrow> takeWhile (\<lambda>y. y \<noteq> x) xs = take s xs @ takeWhile (\<lambda>y. y \<noteq> x) (drop s xs)"
proof -
  assume "x \<notin> set (take s xs)"
  then have "takeWhile (\<lambda>y. y \<noteq> x) (take s xs @ drop s xs) = take s xs @ takeWhile (\<lambda>y. y \<noteq> x) (drop s xs)"
    by (subst takeWhile_append2) auto
  then show ?thesis by simp
qed

lemma take_Suc_takeWhile_neq:
  "x \<in> set xs \<Longrightarrow> take (Suc (length (takeWhile (\<lambda>y. y \<noteq> x) xs))) xs = takeWhile (\<lambda>y. y \<noteq> x) xs @ [x]"
  by (induction xs) auto

lemma length_takeWhile_neq_less:
  "x \<in> set xs \<Longrightarrow> length (takeWhile (\<lambda>y. y \<noteq> x) xs) < length xs"
  by (induction xs) auto

lemma stream_text_fill_Chunk:
  assumes "c \<noteq> []" and "length (rbuf rd) < default_buf_size"
    and "fill rd (Chunk c # rest) = (rd1, sin1)"
  shows "rbuf rd1 @ stream_text sin1 = rbuf rd @ stream_text (Chunk c # rest)"
    and "rerr rd1 = rerr rd" and "length (rbuf rd1) \<le> default_buf_size"
    and "rbuf rd1 = rbuf rd @ take (default_buf_size - length (rbuf rd)) c"
    and "length (rbuf rd) < length (rbuf rd1)"
    and "wf_stdin (Chunk c # rest) \<Longrightarrow> wf_stdin sin1"
    and "stream_end sin1 = stream_end (Chunk c # rest)"
    and "after_end sin1 = after_end (Chunk c # rest)"
  using assms by (auto simp: fill_Chunk Let_def split: if_splits)

lemma read_slice_content:
  assumes "rerr rd = None" and "wf_stdin sin" and "length (rbuf rd) \<le> default_buf_size"
    and "CHR ''\<newline>'' \<notin> set (take s (rbuf rd))"
    and "read_slice s rd sin = ((frag, e), rd', sin')"
  shows "let A = rbuf rd @ stream_text sin in
     (if CHR ''\<newline>'' \<in> set (take default_buf_size A) then
        frag = takeWhile (\<lambda>x. x \<noteq> CHR ''\<newline>'') A @ ''\<newline>'' \<and> e = None \<and>
        rbuf rd' @ stream_text sin' = drop (length frag) A \<and> rerr rd' = None \<and> wf_stdin sin' \<and>
        length (rbuf rd') \<le> default_buf_size \<and>
        stream_end sin' = stream_end sin \<and> after_end sin' = after_end sin
      else if default_buf_size \<le> length A then
        frag = take default_buf_size A \<and> e = Some ErrBufferFull \<and> rbuf rd' = [] \<and>
        stream_text sin' = drop default_buf_size A \<and> rerr rd' = None \<and> wf_stdin sin' \<and>
        stream_end sin' = stream_end sin \<and> after_end sin' = after_end sin
      else frag = A \<and> e = Some (stream_end sin) \<and> rbuf rd' = [] \<and> rerr rd' = None \<and>
        sin' = after_end sin)"
  using assms
proof (induction s rd sin arbitrary: frag e rd' sin' rule: read_slice.induct)
  case (1 s rd sin)
  let ?nl = "CHR ''\<newline>''"
  let ?buf = "rbuf rd"
  let ?A = "?buf @ stream_text sin"
  let ?i = "index_byte ?nl (drop s ?buf)"
  show ?case
  proof (cases "0 \<le> ?i")
    case True
    then have inl: "?nl \<in> set (drop s ?buf)" by (simp add: index_byte_neg_iff not_less [symmetric])
    have sl: "s \<le> length ?buf"
    proof (rule ccontr)
      assume "\<not> s \<le> length ?buf"
      then have "drop s ?buf = []" by simp
      with inl show False by simp
    qed
    define j where "j = length (takeWhile (\<lambda>x. x \<noteq> ?nl) ?buf)"
    have tw: "takeWhile (\<lambda>x. x \<noteq> ?nl) ?buf = take s ?buf @ takeWhile (\<lambda>x. x \<noteq> ?nl) (drop s ?buf)"
      using "1.prems"(4) by (rule takeWhile_neq_split)
    have ib: "?i = int (length (takeWhile (\<lambda>x. x \<noteq> ?nl) (drop s ?buf)))"
      using inl by (rule index_byte_eq)
    have jv: "nat ?i + s = j" using tw sl by (simp add: ib j_def)
    have inb: "?nl \<in> set ?buf" using inl by (meson in_set_dropD)
    have jl: "j < length ?buf" using inb by (simp add: j_def length_takeWhile_neq_less)
    have twA: "takeWhile (\<lambda>x. x \<noteq> ?nl) ?A = takeWhile (\<lambda>x. x \<noteq> ?nl) ?buf"
      using inb by (simp add: takeWhile_append1)
    have fr: "take (j + 1) ?buf = takeWhile (\<lambda>x. x \<noteq> ?nl) ?buf @ [?nl]"
      using take_Suc_takeWhile_neq [OF inb] by (simp add: j_def)
    have "?nl \<in> set (take default_buf_size ?A)"
      using inb "1.prems"(3) by (simp add: take_append)
    then show ?thesis using "1.prems" True jv jl fr twA
      by (auto simp: Let_def j_def)
  next
    case nf: False
    then have nod: "?nl \<notin> set (drop s ?buf)" by (simp add: index_byte_neg_iff [symmetric])
    then have nob: "?nl \<notin> set ?buf"
      using "1.prems"(4) by (metis append_take_drop_id Un_iff set_append)
    have ok: "\<not> rerr rd \<noteq> None" using "1.prems"(1) by simp
    show ?thesis
    proof (cases "default_buf_size \<le> length ?buf")
      case True
      then have "length ?buf = default_buf_size" using "1.prems"(3) by simp
      with nf ok nob "1.prems" show ?thesis by (auto simp: Let_def)
    next
      case nfull: False
      show ?thesis
      proof (cases sin)
        case Nil
        with nf nfull ok nob "1.prems" show ?thesis
          by (auto simp: Let_def fill_Nil index_byte_neg_iff)
      next
        case (Cons ev rest)
        show ?thesis
        proof (cases ev)
          case (Fault m)
          with Cons nf nfull ok nob "1.prems" show ?thesis
            by (auto simp: Let_def fill_Fault index_byte_neg_iff)
        next
          case (Chunk c)
          obtain rd1 sin1 where f: "fill rd sin = (rd1, sin1)" by (cases "fill rd sin") auto
          have cne: "c \<noteq> []" using "1.prems"(2) Cons Chunk by simp
          have lt: "length ?buf < default_buf_size" using nfull by simp
          note fc = stream_text_fill_Chunk [OF cne lt f [unfolded Cons Chunk]]
          have rs: "read_slice (length ?buf) rd1 sin1 = ((frag, e), rd', sin')"
            using "1.prems"(5) nf ok nfull f by (simp add: Let_def)
          have pre: "rerr rd1 = None" "wf_stdin sin1" "length (rbuf rd1) \<le> default_buf_size"
              "?nl \<notin> set (take (length ?buf) (rbuf rd1))"
            using fc "1.prems"(1,2) Cons Chunk nob
            by (auto simp: fill_Chunk [OF cne lt] Let_def)
          have IH: "let A = rbuf rd1 @ stream_text sin1 in
            (if ?nl \<in> set (take default_buf_size A) then
               frag = takeWhile (\<lambda>x. x \<noteq> ?nl) A @ ''\<newline>'' \<and> e = None \<and>
               rbuf rd' @ stream_text sin' = drop (length frag) A \<and> rerr rd' = None \<and> wf_stdin sin' \<and>
               length (rbuf rd') \<le> default_buf_size \<and>
               stream_end sin' = stream_end sin1 \<and> after_end sin' = after_end sin1
             else if default_buf_size \<le> length A then
               frag = take default_buf_size A \<and> e = Some ErrBufferFull \<and> rbuf rd' = [] \<and>
               stream_text sin' = drop default_buf_size A \<and> rerr rd' = None \<and> wf_stdin sin' \<and>
               stream_end sin' = stream_end sin1 \<and> after_end sin' = after_end sin1
             else frag = A \<and> e = Some (stream_end sin1) \<and> rbuf rd' = [] \<and> rerr rd' = None \<and>
               sin' = after_end sin1)"
            by (rule "1.IH" [OF refl nf ok nfull f [symmetric] pre rs])
          have eqA: "rbuf rd1 @ stream_text sin1 = ?A" using fc(1) Cons Chunk by simp
          have e1: "stream_end sin1 = stream_end sin" "after_end sin1 = after_end sin"
            using fc(7,8) Cons Chunk by simp_all
          show ?thesis using IH by (simp only: eqA e1)
        qed
      qed
    qed
  qed
qed
lemma stream_end_not_full [simp]: "stream_end sin \<noteq> ErrBufferFull"
  by (induction sin rule: stream_end.induct) auto

lemma drop_Suc_add: "drop (Suc (n + k)) xs = drop (Suc k) (drop n xs)"
  by (simp add: drop_drop add.commute)

lemma collect_fragments_content:
  assumes "rerr rd = None" and "wf_stdin sin" and "length (rbuf rd) \<le> default_buf_size"
    and "collect_fragments full rd sin = ((full', frag, e), rd', sin')"
  shows "let A = rbuf rd @ stream_text sin in
     (if CHR ''\<newline>'' \<in> set A then
        concat full' @ frag = concat full @ takeWhile (\<lambda>x. x \<noteq> CHR ''\<newline>'') A @ ''\<newline>'' \<and>
        e = None \<and>
        rbuf rd' @ stream_text sin' = drop (Suc (length (takeWhile (\<lambda>x. x \<noteq> CHR ''\<newline>'') A))) A \<and>
        rerr rd' = None \<and> wf_stdin sin' \<and> length (rbuf rd') \<le> default_buf_size \<and>
        stream_end sin' = stream_end sin \<and> after_end sin' = after_end sin
      else concat full' @ frag = concat full @ A \<and> e = Some (stream_end sin) \<and>
        rbuf rd' = [] \<and> rerr rd' = None \<and> sin' = after_end sin)"
  using assms
proof (induction full rd sin arbitrary: full' frag e rd' sin' rule: collect_fragments.induct)
  case (1 full rd sin)
  let ?nl = "CHR ''\<newline>''"
  let ?A = "rbuf rd @ stream_text sin"
  obtain f0 e0 rd0 sin0 where rs: "read_slice 0 rd sin = ((f0, e0), rd0, sin0)"
    by (cases "read_slice 0 rd sin") auto
  note rc = read_slice_content [OF "1.prems"(1,2,3) _ rs, simplified, unfolded Let_def]
  have cf: "collect_fragments full rd sin =
      (if e0 = None then ((full, f0, None), rd0, sin0)
       else if e0 \<noteq> Some ErrBufferFull then ((full, f0, e0), rd0, sin0)
       else collect_fragments (full @ [f0]) rd0 sin0)"
    by (simp add: rs del: read_slice.simps)
  show ?case
  proof (cases "?nl \<in> set (take default_buf_size ?A)")
    case True
    then have inA: "?nl \<in> set ?A" by (meson in_set_takeD)
    show ?thesis using rc True inA "1.prems"(4) cf by (simp add: Let_def)
  next
    case nt: False
    show ?thesis
    proof (cases "default_buf_size \<le> length ?A")
      case True
      then have r0: "f0 = take default_buf_size ?A" "e0 = Some ErrBufferFull" "rbuf rd0 = []"
          "stream_text sin0 = drop default_buf_size ?A" "rerr rd0 = None" "wf_stdin sin0"
          "stream_end sin0 = stream_end sin" "after_end sin0 = after_end sin"
        using rc nt by simp_all
      have rec: "collect_fragments (full @ [f0]) rd0 sin0 = ((full', frag, e), rd', sin')"
        using cf "1.prems"(4) r0(2) by simp
      note IH = "1.IH" [OF rs [symmetric] refl refl _ _ r0(5,6) _ rec]
      define A where "A = ?A"
      define B where "B = drop default_buf_size A"
      have ntA: "?nl \<notin> set (take default_buf_size A)" unfolding A_def using nt .
      have split: "A = take default_buf_size A @ B" unfolding B_def by (rule append_take_drop_id [symmetric])
      have inB: "?nl \<in> set A \<longleftrightarrow> ?nl \<in> set B"
        using ntA by (metis Un_iff set_append split)
      have twB: "takeWhile (\<lambda>x. x \<noteq> ?nl) A = take default_buf_size A @ takeWhile (\<lambda>x. x \<noteq> ?nl) B"
        using ntA unfolding B_def by (rule takeWhile_neq_split)
      have lt: "length (take default_buf_size A) = default_buf_size" using True by (simp add: A_def)
      have dr: "drop (Suc (length (takeWhile (\<lambda>x. x \<noteq> ?nl) A))) A
          = drop (Suc (length (takeWhile (\<lambda>x. x \<noteq> ?nl) B))) B"
        unfolding twB length_append lt B_def by (rule drop_Suc_add)
      have sB: "stream_text sin0 = B" using r0(4) by (simp only: A_def B_def)
      have f0: "f0 = take default_buf_size A" using r0(1) by (simp only: A_def)
      have IH': "if ?nl \<in> set B then
          concat full' @ frag = concat (full @ [f0]) @ takeWhile (\<lambda>x. x \<noteq> ?nl) B @ ''\<newline>'' \<and>
          e = None \<and> rbuf rd' @ stream_text sin' = drop (Suc (length (takeWhile (\<lambda>x. x \<noteq> ?nl) B))) B \<and>
          rerr rd' = None \<and> wf_stdin sin' \<and> length (rbuf rd') \<le> default_buf_size \<and>
          stream_end sin' = stream_end sin0 \<and> after_end sin' = after_end sin0
        else concat full' @ frag = concat (full @ [f0]) @ B \<and> e = Some (stream_end sin0) \<and>
          rbuf rd' = [] \<and> rerr rd' = None \<and> sin' = after_end sin0"
        using IH r0(2) unfolding Let_def r0(3) sB append_Nil by simp
      have goal: "if ?nl \<in> set A then
          concat full' @ frag = concat full @ takeWhile (\<lambda>x. x \<noteq> ?nl) A @ ''\<newline>'' \<and>
          e = None \<and> rbuf rd' @ stream_text sin' = drop (Suc (length (takeWhile (\<lambda>x. x \<noteq> ?nl) A))) A \<and>
          rerr rd' = None \<and> wf_stdin sin' \<and> length (rbuf rd') \<le> default_buf_size \<and>
          stream_end sin' = stream_end sin \<and> after_end sin' = after_end sin
        else concat full' @ frag = concat full @ A \<and> e = Some (stream_end sin) \<and>
          rbuf rd' = [] \<and> rerr rd' = None \<and> sin' = after_end sin"
        using IH' r0(7,8) inB dr
        by (simp only: concat_append concat.simps append_Nil2 append_assoc f0 twB flip: split)
      then show ?thesis unfolding Let_def A_def .
    next
      case False
      then show ?thesis using rc nt "1.prems"(4) cf by (auto simp: Let_def)
    qed
  qed
qed
lemma bufio_read_string_content:
  assumes "rerr rd = None" and "wf_stdin sin" and "length (rbuf rd) \<le> default_buf_size"
    and "bufio_read_string rd sin = ((line, e), rd', sin')"
  shows "let A = rbuf rd @ stream_text sin in
     (if CHR ''\<newline>'' \<in> set A then
        line = takeWhile (\<lambda>x. x \<noteq> CHR ''\<newline>'') A @ ''\<newline>'' \<and> e = None \<and>
        rbuf rd' @ stream_text sin' = drop (length line) A \<and>
        rerr rd' = None \<and> wf_stdin sin' \<and> length (rbuf rd') \<le> default_buf_size \<and>
        stream_end sin' = stream_end sin \<and> after_end sin' = after_end sin
      else line = A \<and> e = Some (stream_end sin) \<and>
        rbuf rd' = [] \<and> rerr rd' = None \<and> sin' = after_end sin)"
proof -
  obtain full frag e0 rd0 sin0 where cf: "collect_fragments [] rd sin = ((full, frag, e0), rd0, sin0)"
    by (cases "collect_fragments [] rd sin") auto
  then have r: "line = concat full @ frag" "e = e0" "rd' = rd0" "sin' = sin0"
    using assms(4) by (simp_all add: bufio_read_string_def)
  show ?thesis
    using collect_fragments_content [OF assms(1,2,3) cf] unfolding r by (simp add: Let_def)
qed

lemma bufio_read_string_one_chunk:
  assumes nl: "CHR ''\<newline>'' \<notin> set l" and len: "length (l @ ''\<newline>'' @ extra) \<le> default_buf_size"
  shows "bufio_read_string new_reader (Chunk (l @ ''\<newline>'' @ extra) # rest) =
           ((l @ ''\<newline>'', None), \<lparr>rbuf = extra, rerr = None\<rparr>, rest)"
proof -
  define c where "c = l @ ''\<newline>'' @ extra"
  have ib: "index_byte CHR ''\<newline>'' c = int (length l)" using nl by (simp add: c_def index_byte_line)
  have tk: "take (nat (int (length l)) + 0 + 1) c = l @ ''\<newline>''" "drop (nat (int (length l)) + 0 + 1) c = extra"
    by (simp_all add: c_def)
  have ne: "c \<noteq> []" "\<not> default_buf_size \<le> length (rbuf new_reader)"
    by (simp_all add: c_def new_reader_def default_buf_size_def)
  have f: "fill new_reader (Chunk c # rest) = (\<lparr>rbuf = c, rerr = None\<rparr>, rest)"
    using len ne unfolding c_def [symmetric] by (simp add: fill_Chunk new_reader_def Let_def)
  have r1: "read_slice 0 \<lparr>rbuf = c, rerr = None\<rparr> rest = ((l @ ''\<newline>'', None), \<lparr>rbuf = extra, rerr = None\<rparr>, rest)"
    by (subst read_slice.simps) (simp only: drop_0 reader.simps ib tk Let_def if_True of_nat_0_le_iff reader.update_convs)
  have r0: "read_slice 0 new_reader (Chunk c # rest) = ((l @ ''\<newline>'', None), \<lparr>rbuf = extra, rerr = None\<rparr>, rest)"
    by (subst read_slice.simps) (simp add: f [unfolded new_reader_def] r1 new_reader_def default_buf_size_def del: read_slice.simps)
  show ?thesis
    unfolding c_def [symmetric] by (simp add: bufio_read_string_def r0 del: read_slice.simps)
qed


lemma wf_after_end: "wf_stdin sin \<Longrightarrow> wf_stdin (after_end sin)"
  by (induction sin rule: after_end.induct) auto


subsection \<open>\<open>ReadString\<close> neither loses nor invents bytes\<close>

text \<open>C14: when \<open>ReadString\<close> returns a line without error, the line followed by what the reader still buffers and what the stream still holds is exactly what the buffer and the stream held before.\<close>
theorem bufio_read_string_conserves:
  assumes "rerr rd = None" and "wf_stdin sin" and "length (rbuf rd) \<le> default_buf_size"
    and "bufio_read_string rd sin = ((line, None), rd', sin')"
  shows "line @ rbuf rd' @ stream_text sin' = rbuf rd @ stream_text sin"
proof -
  let ?A = "rbuf rd @ stream_text sin"
  note c = bufio_read_string_content [OF assms]
  have inA: "CHR ''\<newline>'' \<in> set ?A" using c by (auto simp: Let_def split: if_splits)
  then have "line = take (length line) ?A"
    using c take_Suc_takeWhile_neq [OF inA] by (simp add: Let_def)
  then have e: "line @ drop (length line) ?A = ?A" by (metis append_take_drop_id)
  have r: "rbuf rd' @ stream_text sin' = drop (length line) ?A"
    using c inA unfolding Let_def by (simp only: if_True)
  show ?thesis unfolding r using e .
qed


theorem bufio_read_string_conserves_witness:
  "''a\<newline>'' @ rbuf \<lparr>rbuf = [], rerr = None\<rparr> @ stream_text [] = rbuf new_reader @ stream_text [Chunk ''a\<newline>'']"
  using bufio_read_string_conserves [of new_reader "[Chunk ''a\<newline>'']" "''a\<newline>''" "\<lparr>rbuf = [], rerr = None\<rparr>" "[]"]
    bufio_read_string_one_chunk [of "''a''" "[]" "[]"]
  by (simp add: default_buf_size_def new_reader_def)


subsection \<open>Each \<open>ReadString\<close> consumes input\<close>

lemma collect_fragments_size:
  "collect_fragments full rd sin = ((full', frag, e), rd', sin') \<Longrightarrow>
     stdin_size sin' + length (rbuf rd') + length (concat full') + length frag
       \<le> stdin_size sin + length (rbuf rd) + length (concat full)"
proof (induction full rd sin arbitrary: full' frag e rd' sin' rule: collect_fragments.induct)
  case (1 full rd sin)
  obtain f0 e0 rd0 sin0 where rs: "read_slice 0 rd sin = ((f0, e0), rd0, sin0)"
    by (cases "read_slice 0 rd sin") auto
  have sz: "stdin_size sin0 + length (rbuf rd0) + length f0 \<le> stdin_size sin + length (rbuf rd)"
    using read_slice_size [OF rs] by simp
  have cf: "collect_fragments full rd sin =
      (if e0 = None then ((full, f0, None), rd0, sin0)
       else if e0 \<noteq> Some ErrBufferFull then ((full, f0, e0), rd0, sin0)
       else collect_fragments (full @ [f0]) rd0 sin0)"
    by (simp add: rs del: read_slice.simps)
  show ?case
  proof (cases "e0 = Some ErrBufferFull")
    case True
    then have "collect_fragments (full @ [f0]) rd0 sin0 = ((full', frag, e), rd', sin')"
      using cf "1.prems" by simp
    from "1.IH" [OF rs [symmetric] refl refl _ _ this] True sz show ?thesis by simp
  next
    case False
    then show ?thesis using cf "1.prems" sz by (auto split: if_splits)
  qed
qed


lemma bufio_read_string_size:
  "bufio_read_string rd sin = ((line, e), rd', sin') \<Longrightarrow>
     stdin_size sin' + length (rbuf rd') + length line \<le> stdin_size sin + length (rbuf rd)"
  using collect_fragments_size [of "[]" rd sin] by (auto simp: bufio_read_string_def split: prod.splits)


lemma ev_size_pos [simp]: "ev_size e \<noteq> 0"
  by (cases e) simp_all


lemma after_end_size: "sin \<noteq> [] \<Longrightarrow> stdin_size (after_end sin) < stdin_size sin"
proof (induction sin rule: after_end.induct)
  case (2 c rest)
  then show ?case by (cases "rest = []") (auto simp: stdin_size_def)
qed (auto simp: stdin_size_def)


subsection \<open>Errors and empty reads\<close>

text \<open>Every error the reader reports comes from the stream or from \<open>fill\<close>'s limit on
  empty reads: a read error, never a parse error.\<close>

lemma os_read_kind:
  "os_read k sin = (data, e, sin') \<Longrightarrow> pred_option (\<lambda>x. kind_of x = ReadError) e"
  by (induction k sin rule: os_read.induct) (auto split: if_splits)

lemma fill_loop_kind:
  "fill_loop n rd sin = (rd', sin') \<Longrightarrow> pred_option (\<lambda>x. kind_of x = ReadError) (rerr rd) \<Longrightarrow>
     pred_option (\<lambda>x. kind_of x = ReadError) (rerr rd')"
proof (induction n arbitrary: rd sin)
  case 0
  then show ?case by auto
next
  case (Suc n)
  obtain data e s1 where o: "os_read (default_buf_size - length (rbuf rd)) sin = (data, e, s1)"
    by (cases "os_read (default_buf_size - length (rbuf rd)) sin") auto
  show ?case using Suc os_read_kind [OF o] by (auto simp: o Let_def split: if_splits)
qed

lemma read_slice_kind:
  "read_slice s rd sin = ((frag, e), rd', sin') \<Longrightarrow> pred_option (\<lambda>x. kind_of x = ReadError) (rerr rd) \<Longrightarrow>
     pred_option (\<lambda>x. kind_of x = ReadError) e \<and> pred_option (\<lambda>x. kind_of x = ReadError) (rerr rd')"
proof (induction s rd sin arbitrary: frag e rd' sin' rule: read_slice.induct)
  case (1 s rd sin)
  let ?i = "index_byte CHR ''\<newline>'' (drop s (rbuf rd))"
  show ?case
  proof (cases "0 \<le> ?i \<or> rerr rd \<noteq> None \<or> default_buf_size \<le> length (rbuf rd)")
    case True
    with "1.prems" show ?thesis by (auto simp: Let_def split: if_splits dest: sym)
  next
    case False
    then have nf: "\<not> 0 \<le> ?i" and ok: "\<not> rerr rd \<noteq> None" and nfull: "\<not> default_buf_size \<le> length (rbuf rd)"
      by simp_all
    obtain rd1 sin1 where f: "fill rd sin = (rd1, sin1)" by (cases "fill rd sin") auto
    with nf ok nfull "1.prems" have rs: "read_slice (length (rbuf rd)) rd1 sin1 = ((frag, e), rd', sin')"
      by (simp add: Let_def)
    have k1: "pred_option (\<lambda>x. kind_of x = ReadError) (rerr rd1)"
      using fill_loop_kind [OF f [unfolded fill_def] "1.prems"(2)] .
    show ?thesis by (rule "1.IH" [OF refl nf ok nfull f [symmetric] rs k1])
  qed
qed

lemma collect_fragments_kind:
  "collect_fragments full rd sin = ((fl, frag, e), rd', sin') \<Longrightarrow> pred_option (\<lambda>x. kind_of x = ReadError) (rerr rd) \<Longrightarrow>
     pred_option (\<lambda>x. kind_of x = ReadError) e"
proof (induction full rd sin arbitrary: fl frag e rd' sin' rule: collect_fragments.induct)
  case (1 full rd sin)
  obtain f0 e0 rd0 sin0 where rs: "read_slice 0 rd sin = ((f0, e0), rd0, sin0)"
    by (cases "read_slice 0 rd sin") auto
  note k = read_slice_kind [OF rs "1.prems"(2)]
  have cf: "collect_fragments full rd sin =
      (if e0 = None then ((full, f0, None), rd0, sin0)
       else if e0 \<noteq> Some ErrBufferFull then ((full, f0, e0), rd0, sin0)
       else collect_fragments (full @ [f0]) rd0 sin0)"
    by (simp add: rs del: read_slice.simps)
  show ?case
  proof (cases "e0 = Some ErrBufferFull")
    case True
    then have "collect_fragments (full @ [f0]) rd0 sin0 = ((fl, frag, e), rd', sin')"
      using cf "1.prems" by simp
    from "1.IH" [OF rs [symmetric] refl refl _ _ this] True k show ?thesis by simp
  next
    case False
    then show ?thesis using cf "1.prems" k by (auto split: if_splits)
  qed
qed

lemma bufio_read_string_kind:
  "pred_option (\<lambda>x. kind_of x = ReadError) (snd (fst (bufio_read_string new_reader sin)))"
proof -
  obtain fl frag e rd' sin' where c: "collect_fragments [] new_reader sin = ((fl, frag, e), rd', sin')"
    by (cases "collect_fragments [] new_reader sin") auto
  have "pred_option (\<lambda>x. kind_of x = ReadError) e"
    by (rule collect_fragments_kind [OF c]) (simp add: new_reader_def)
  then show ?thesis by (simp add: bufio_read_string_def c del: collect_fragments.simps)
qed

text \<open>\<open>fill\<close> tries \<open>maxConsecutiveEmptyReads\<close> times: fewer empty reads are skipped, that
  many end the read with \<open>io.ErrNoProgress\<close>.\<close>

lemma fill_loop_empty_reads:
  "fill_loop n rd (replicate k (Chunk []) @ s) =
     (if k < n then fill_loop (n - k) rd s
      else (rd\<lparr>rerr := Some ErrNoProgress\<rparr>, replicate (k - n) (Chunk []) @ s))"
proof (induction n arbitrary: k)
  case 0
  then show ?case by simp
next
  case (Suc n)
  then show ?case by (cases k) (simp_all add: Let_def)
qed

lemma fill_loop_first_read:
  assumes "0 < m" and "0 < n" and "length (rbuf rd) < default_buf_size" and "wf_stdin s"
  shows "fill_loop m rd s = fill_loop n rd s"
proof -
  obtain m' n' where mn: "m = Suc m'" "n = Suc n'" using assms(1,2) by (cases m; cases n) auto
  show ?thesis
  proof (cases s)
    case Nil
    then show ?thesis by (simp add: mn)
  next
    case (Cons ev r)
    then show ?thesis using assms(3,4) by (cases ev) (auto simp: mn Let_def)
  qed
qed

lemma read_slice_new_reader:
  "read_slice 0 new_reader sin = (case fill new_reader sin of (rd', sin') \<Rightarrow> read_slice 0 rd' sin')"
  by (subst read_slice.simps) (simp add: new_reader_def default_buf_size_def)

lemma bufio_read_string_fill:
  assumes "fill new_reader sin1 = fill new_reader sin2"
  shows "bufio_read_string new_reader sin1 = bufio_read_string new_reader sin2"
proof -
  have "collect_fragments [] new_reader sin1 = collect_fragments [] new_reader sin2"
    by (subst (1 2) collect_fragments.simps) (simp only: read_slice_new_reader assms)
  then show ?thesis by (simp add: bufio_read_string_def del: collect_fragments.simps)
qed

end
