(* ===== verification/Strings.thy ===== *)
theory Strings
  imports Prelude
begin

text \<open>
  \<open>strings.TrimSpace\<close>, which \<open>ReadString\<close> applies to the line it read, with the parts of
  \<open>unicode/utf8\<close> and \<open>unicode\<close> it calls. \<open>TrimSpace\<close> scans ASCII bytes from both ends
  (the table \<open>asciiSpace\<close>); on meeting a byte \<open>\<ge> 0x80\<close> it falls back to
  \<open>TrimFunc\<close>/\<open>TrimRightFunc\<close> with \<open>unicode.IsSpace\<close>, which decode UTF-8 runes with
  \<open>utf8.DecodeRuneInString\<close> (the \<open>for range\<close> loop of \<open>indexFunc\<close>) and
  \<open>utf8.DecodeLastRuneInString\<close> (\<open>lastIndexFunc\<close>). A rune (\<open>int32\<close>) is a
  \<^typ>\<open>32 word\<close>; every rune these decoders return is non-negative, so the word's
  unsigned reading is the Go value. Only the linear scan of \<open>unicode.is16\<close> is
  modelled: the \<open>White_Space\<close> table has 5 entries past its Latin-1 offset, fewer than
  \<open>linearMax = 18\<close>, so the binary search is never reached.
\<close>

type_synonym rune = "32 word"

subsection \<open>UTF-8 decoding (\<open>unicode/utf8\<close>)\<close>

definition rune_self :: nat where "rune_self = 128"
definition rune_error :: rune where "rune_error = 0xFFFD"
definition utf_max :: nat where "utf_max = 4"
definition max_latin1 :: rune where "max_latin1 = 0xFF"

definition locb :: byte where "locb = 0x80"
definition hicb :: byte where "hicb = 0xBF"
definition maskx :: byte where "maskx = 0x3F"
definition mask2 :: byte where "mask2 = 0x1F"
definition mask3 :: byte where "mask3 = 0x0F"
definition mask4 :: byte where "mask4 = 0x07"

text \<open>The table \<open>first\<close>: \<open>as\<close> (0xF0) for ASCII, \<open>xx\<close> (0xF1) for an invalid first byte,
  otherwise the sequence size in the low bits and the accept range in the high nibble.\<close>
definition first :: "byte \<Rightarrow> byte" where
  "first b =
     (if b < 0x80 then 0xF0
      else if b < 0xC2 then 0xF1
      else if b < 0xE0 then 0x02
      else if b = 0xE0 then 0x13
      else if b < 0xED then 0x03
      else if b = 0xED then 0x23
      else if b < 0xF0 then 0x03
      else if b = 0xF0 then 0x34
      else if b < 0xF4 then 0x04
      else if b = 0xF4 then 0x44
      else 0xF1)"

text \<open>\<open>acceptRanges\<close>: the valid range of the second byte.\<close>
definition accept_range :: "byte \<Rightarrow> byte \<times> byte" where
  "accept_range k =
     (if k = 0 then (locb, hicb) else if k = 1 then (0xA0, hicb) else if k = 2 then (locb, 0x9F)
      else if k = 3 then (0x90, hicb) else (locb, 0x8F))"

definition rune_of :: "byte \<Rightarrow> rune" where
  "rune_of b = ucast b"

text \<open>\<open>utf8.DecodeRuneInString\<close>.\<close>
definition decode_rune :: "string \<Rightarrow> rune \<times> nat" where
  "decode_rune s =
     (let n = length s in
      if n < 1 then (rune_error, 0) else
      let s0 = byte_of (s ! 0); x = first s0 in
      if 0xF0 \<le> x then (if x AND 1 = 0 then rune_of s0 else rune_error, 1) else
      let sz = unat (x AND 7); (lo, hi) = accept_range (drop_bit 4 x) in
      if n < sz then (rune_error, 1) else
      let s1 = byte_of (s ! 1) in
      if s1 < lo \<or> hi < s1 then (rune_error, 1) else
      if sz \<le> 2 then (push_bit 6 (rune_of (s0 AND mask2)) OR rune_of (s1 AND maskx), 2) else
      let s2 = byte_of (s ! 2) in
      if s2 < locb \<or> hicb < s2 then (rune_error, 1) else
      if sz \<le> 3 then (push_bit 12 (rune_of (s0 AND mask3)) OR push_bit 6 (rune_of (s1 AND maskx))
                       OR rune_of (s2 AND maskx), 3) else
      let s3 = byte_of (s ! 3) in
      if s3 < locb \<or> hicb < s3 then (rune_error, 1) else
      (push_bit 18 (rune_of (s0 AND mask4)) OR push_bit 12 (rune_of (s1 AND maskx))
         OR push_bit 6 (rune_of (s2 AND maskx)) OR rune_of (s3 AND maskx), 4))"

text \<open>\<open>utf8.RuneStart\<close>.\<close>
definition rune_start :: "byte \<Rightarrow> bool" where
  "rune_start b \<longleftrightarrow> b AND 0xC0 \<noteq> 0x80"

text \<open>The loop \<open>for start--; start >= lim; start--\<close> of \<open>DecodeLastRuneInString\<close>.\<close>
function last_start :: "int \<Rightarrow> int \<Rightarrow> string \<Rightarrow> int" where
  "last_start start lim s =
     (if start \<ge> lim then (if rune_start (byte_of (s ! nat start)) then start
                           else last_start (start - 1) lim s)
      else start)"
  by pat_completeness auto
termination by (relation "measure (\<lambda>(start, lim, s). nat (start - lim + 1))") auto

declare last_start.simps [simp del]

text \<open>\<open>utf8.DecodeLastRuneInString\<close>.\<close>
definition decode_last_rune :: "string \<Rightarrow> rune \<times> nat" where
  "decode_last_rune s =
     (let end' = int (length s) in
      if end' = 0 then (rune_error, 0) else
      let start = end' - 1; r = rune_of (byte_of (s ! nat start)) in
      if unat r < rune_self then (r, 1) else
      let lim = max (end' - int utf_max) 0;
          start = last_start (start - 1) lim s;
          start = max start 0;
          (r, sz) = decode_rune (drop (nat start) s) in
      if start + int sz \<noteq> end' then (rune_error, 1) else (r, sz))"

subsection \<open>\<open>unicode.IsSpace\<close>\<close>

text \<open>\<open>unicode.White_Space\<close>: its \<open>R16\<close> ranges (lo, hi, stride), \<open>LatinOffset = 2\<close>.\<close>
definition white_space_r16 :: "(16 word \<times> 16 word \<times> 16 word) list" where
  "white_space_r16 =
     [(0x0009, 0x000d, 1), (0x0020, 0x0085, 101), (0x00a0, 0x1680, 5600), (0x2000, 0x200a, 1),
      (0x2028, 0x2029, 1), (0x202f, 0x205f, 48), (0x3000, 0x3000, 1)]"

definition white_space_latin_offset :: nat where "white_space_latin_offset = 2"

text \<open>\<open>unicode.is16\<close>, its linear scan.\<close>
fun is16 :: "(16 word \<times> 16 word \<times> 16 word) list \<Rightarrow> 16 word \<Rightarrow> bool" where
  "is16 [] r = False"
| "is16 ((lo, hi, stride) # rs) r =
     (if r < lo then False
      else if r \<le> hi then stride = 1 \<or> (r - lo) mod stride = 0
      else is16 rs r)"

text \<open>\<open>unicode.isExcludingLatin\<close> for \<open>White_Space\<close>, which has no \<open>R32\<close> ranges.\<close>
definition is_excluding_latin_ws :: "rune \<Rightarrow> bool" where
  "is_excluding_latin_ws r =
     (let r16 = white_space_r16; off = white_space_latin_offset in
      if off < length r16 \<and> r \<le> ucast (fst (snd (last r16))) then is16 (drop off r16) (ucast r)
      else False)"

definition is_space :: "rune \<Rightarrow> bool" where
  "is_space r =
     (if r \<le> max_latin1 then r \<in> {0x09, 0x0A, 0x0B, 0x0C, 0x0D, 0x20, 0x85, 0xA0}
      else is_excluding_latin_ws r)"

subsection \<open>\<open>strings\<close>\<close>

text \<open>\<open>asciiSpace\<close>: tab, newline, vertical tab, form feed, carriage return, space.\<close>
definition ascii_space :: "char \<Rightarrow> bool" where
  "ascii_space c \<longleftrightarrow> byte_of c \<in> {0x09, 0x0A, 0x0B, 0x0C, 0x0D, 0x20}"

text \<open>\<open>indexFunc(s, f, truth)\<close>: the \<open>for i, r := range s\<close> loop, \<open>i\<close> the byte offset.\<close>
function index_func_from :: "(rune \<Rightarrow> bool) \<Rightarrow> bool \<Rightarrow> nat \<Rightarrow> string \<Rightarrow> int" where
  "index_func_from f truth i s =
     (if s = [] then -1 else
      (case decode_rune s of (r, n) \<Rightarrow>
         if f r = truth then int i else index_func_from f truth (i + n) (drop n s)))"
  by pat_completeness auto

text \<open>\<open>lastIndexFunc(s, f, truth)\<close>: \<open>p\<close> is the prefix \<open>s[0:i]\<close> still to scan.\<close>
function last_index_func_from :: "(rune \<Rightarrow> bool) \<Rightarrow> bool \<Rightarrow> string \<Rightarrow> int" where
  "last_index_func_from f truth p =
     (if 0 < length p then
        (case decode_last_rune p of (r, sz) \<Rightarrow>
           if f r = truth then int (length p - sz) else last_index_func_from f truth (take (length p - sz) p))
      else -1)"
  by pat_completeness auto

text \<open>\<open>TrimLeftFunc(s, f)\<close>.\<close>
definition trim_left_func :: "(rune \<Rightarrow> bool) \<Rightarrow> string \<Rightarrow> string" where
  "trim_left_func f s = (let i = index_func_from f False 0 s in if i = -1 then [] else drop (nat i) s)"

text \<open>\<open>TrimRightFunc(s, f)\<close>.\<close>
definition trim_right_func :: "(rune \<Rightarrow> bool) \<Rightarrow> string \<Rightarrow> string" where
  "trim_right_func f s =
     (let i = last_index_func_from f False s;
          i = (if 0 \<le> i \<and> rune_self \<le> unat (byte_of (s ! nat i))
               then i + int (snd (decode_rune (drop (nat i) s))) else i + 1)
      in take (nat i) s)"

text \<open>\<open>TrimFunc(s, f)\<close>.\<close>
definition trim_func :: "(rune \<Rightarrow> bool) \<Rightarrow> string \<Rightarrow> string" where
  "trim_func f s = trim_right_func f (trim_left_func f s)"

text \<open>
  The two ASCII loops of \<open>TrimSpace\<close>. Each returns \<open>Inl\<close> the result of the Unicode
  fallback when it meets a byte \<open>\<ge> utf8.RuneSelf\<close>, and \<open>Inr\<close> the index where it stops.
\<close>
function trim_space_start :: "string \<Rightarrow> nat \<Rightarrow> string + nat" where
  "trim_space_start s start =
     (if start < length s then
        (let c = s ! start in
         if rune_self \<le> unat (byte_of c) then Inl (trim_func is_space (drop start s))
         else if ascii_space c then trim_space_start s (start + 1)
         else Inr start)
      else Inr start)"
  by pat_completeness auto
termination by (relation "measure (\<lambda>(s, start). length s - start)") auto

declare trim_space_start.simps [simp del]

fun trim_space_stop :: "string \<Rightarrow> nat \<Rightarrow> nat \<Rightarrow> string + nat" where
  "trim_space_stop s start stop =
     (if start < stop then
        (let c = s ! (stop - 1) in
         if rune_self \<le> unat (byte_of c) then Inl (trim_right_func is_space (take (stop - start) (drop start s)))
         else if ascii_space c then trim_space_stop s start (stop - 1)
         else Inr stop)
      else Inr stop)"

declare trim_space_stop.simps [simp del]

text \<open>\<open>strings.TrimSpace\<close>.\<close>
definition trim_space :: "string \<Rightarrow> string" where
  "trim_space s =
     (case trim_space_start s 0 of
        Inl r \<Rightarrow> r
      | Inr start \<Rightarrow>
          (case trim_space_stop s start (length s) of
             Inl r \<Rightarrow> r
           | Inr stop \<Rightarrow> take (stop - start) (drop start s)))"

subsection \<open>Specifications\<close>

text \<open>An ASCII byte, and the ASCII-level specification of \<open>TrimSpace\<close>: drop the
  \<open>asciiSpace\<close> bytes at both ends.\<close>
definition is_ascii :: "char \<Rightarrow> bool" where
  "is_ascii c \<longleftrightarrow> (of_char c :: nat) < rune_self"

definition strip_ascii_space :: "string \<Rightarrow> string" where
  "strip_ascii_space s = rev (dropWhile ascii_space (rev (dropWhile ascii_space s)))"

text \<open>\<open>r\<close> is a contiguous piece \<open>s[j:j+k]\<close> of \<open>s\<close>.\<close>
definition window :: "string \<Rightarrow> string \<Rightarrow> bool" where
  "window r s \<longleftrightarrow> (\<exists>j k. r = take k (drop j s))"

text \<open>
  \<open>decode_rune\<close> as a function of the length and the first four bytes of its argument
  (positions past the end are never read), and a UTF-8 continuation byte.
\<close>
definition decode_bytes :: "nat \<Rightarrow> char \<Rightarrow> char \<Rightarrow> char \<Rightarrow> char \<Rightarrow> rune \<times> nat" where
  "decode_bytes n c0 c1 c2 c3 =
     (if n < 1 then (rune_error, 0) else
      let s0 = byte_of c0; x = first s0 in
      if 0xF0 \<le> x then (if x AND 1 = 0 then rune_of s0 else rune_error, 1) else
      let sz = unat (x AND 7); (lo, hi) = accept_range (drop_bit 4 x) in
      if n < sz then (rune_error, 1) else
      let s1 = byte_of c1 in
      if s1 < lo \<or> hi < s1 then (rune_error, 1) else
      if sz \<le> 2 then (push_bit 6 (rune_of (s0 AND mask2)) OR rune_of (s1 AND maskx), 2) else
      let s2 = byte_of c2 in
      if s2 < locb \<or> hicb < s2 then (rune_error, 1) else
      if sz \<le> 3 then (push_bit 12 (rune_of (s0 AND mask3)) OR push_bit 6 (rune_of (s1 AND maskx))
                       OR rune_of (s2 AND maskx), 3) else
      let s3 = byte_of c3 in
      if s3 < locb \<or> hicb < s3 then (rune_error, 1) else
      (push_bit 18 (rune_of (s0 AND mask4)) OR push_bit 12 (rune_of (s1 AND maskx))
         OR push_bit 6 (rune_of (s2 AND maskx)) OR rune_of (s3 AND maskx), 4))"

definition cont_byte :: "char \<Rightarrow> bool" where
  "cont_byte c \<longleftrightarrow> locb \<le> byte_of c \<and> byte_of c \<le> hicb"

subsection \<open>Termination of the decoding loops\<close>

lemma first_size: "first b < 0xF0 \<Longrightarrow> unat (first b AND 7) \<in> {2, 3, 4}"
  by (simp add: first_def split: if_splits)

lemma snd_decode_rune:
  "snd (decode_rune s) =
     (if length s < 1 then 0 else
      let s0 = byte_of (s ! 0); x = first s0 in
      if 0xF0 \<le> x then 1 else
      let sz = unat (x AND 7); (lo, hi) = accept_range (drop_bit 4 x) in
      if length s < sz then 1 else
      let s1 = byte_of (s ! 1) in
      if s1 < lo \<or> hi < s1 then 1 else
      if sz \<le> 2 then 2 else
      let s2 = byte_of (s ! 2) in
      if s2 < locb \<or> hicb < s2 then 1 else
      if sz \<le> 3 then 3 else
      let s3 = byte_of (s ! 3) in
      if s3 < locb \<or> hicb < s3 then 1 else 4)"
  unfolding decode_rune_def Let_def by (simp split: prod.split)

lemma decode_rune_size:
  "s \<noteq> [] \<Longrightarrow> 1 \<le> snd (decode_rune s) \<and> snd (decode_rune s) \<le> length s"
proof -
  assume ne: "s \<noteq> []"
  then have n1: "1 \<le> length s" by (cases s) auto
  show ?thesis
  proof (cases "0xF0 \<le> first (byte_of (s ! 0))")
    case True
    with ne n1 show ?thesis by (simp add: snd_decode_rune)
  next
    case False
    then have "unat (first (byte_of (s ! 0)) AND 7) \<in> {2, 3, 4}" by (intro first_size) simp
    with n1 False show ?thesis
      unfolding snd_decode_rune Let_def by (auto split: prod.split)
  qed
qed

lemma last_start_le: "last_start start lim s \<le> start"
  by (induction start lim s rule: last_start.induct) (subst last_start.simps, auto)

lemma decode_last_rune_size:
  "s \<noteq> [] \<Longrightarrow> 1 \<le> snd (decode_last_rune s) \<and> snd (decode_last_rune s) \<le> length s"
proof -
  assume ne: "s \<noteq> []"
  define e where "e = int (length s)"
  define st where "st = max (last_start (e - 1 - 1) (max (e - int utf_max) 0) s) 0"
  have st: "0 \<le> st" "st \<le> e - 1"
    using last_start_le [of "e - 1 - 1" "max (e - int utf_max) 0" s] ne by (auto simp: st_def e_def)
  have e0: "e \<noteq> 0" using ne by (simp add: e_def)
  obtain r sz where d: "decode_rune (drop (nat st) s) = (r, sz)" by (cases "decode_rune (drop (nat st) s)")
  have "snd (decode_last_rune s) = 1 \<or> (st + int sz = e \<and> snd (decode_last_rune s) = sz)"
    using ne d e0 unfolding decode_last_rune_def Let_def e_def [symmetric] st_def [symmetric]
    by (simp del: last_start.simps split: prod.split)
  with st ne show ?thesis by (auto simp: e_def)
qed

termination index_func_from
  by (relation "measure (\<lambda>(f, truth, i, s). length s)")
    (auto dest!: sym [THEN arg_cong [where f = snd]] decode_rune_size)

declare index_func_from.simps [simp del]

termination last_index_func_from
  by (relation "measure (\<lambda>(f, truth, p). length p)")
    (auto dest!: sym [THEN arg_cong [where f = snd]] decode_last_rune_size)

declare last_index_func_from.simps [simp del]

subsection \<open>\<open>TrimSpace\<close> on ASCII input, and the substring property\<close>

lemma rune_self_le_iff [simp]: "rune_self \<le> (of_char c :: nat) \<longleftrightarrow> \<not> is_ascii c"
  by (simp add: is_ascii_def not_less)

lemma take_rev_dropWhile_rev:
  "take (length (dropWhile P (rev xs))) xs = rev (dropWhile P (rev xs))"
proof -
  have "xs = rev (dropWhile P (rev xs)) @ rev (takeWhile P (rev xs))"
    by (metis rev_append rev_rev_ident takeWhile_dropWhile_id)
  then show ?thesis by (metis append_eq_conv_conj length_rev)
qed

lemma trim_space_start_ascii:
  "list_all is_ascii s \<Longrightarrow>
     trim_space_start s start = Inr (start + length (takeWhile ascii_space (drop start s)))"
proof (induction s start rule: trim_space_start.induct)
  case (1 s start)
  show ?case
  proof (cases "start < length s")
    case True
    then have d: "drop start s = s ! start # drop (Suc start) s" by (rule Cons_nth_drop_Suc [symmetric])
    have "is_ascii (s ! start)" using "1.prems" True by (simp add: list_all_length)
    with True d "1.IH" "1.prems" show ?thesis
      by (subst trim_space_start.simps) (simp add: Let_def)
  next
    case False
    then show ?thesis by (subst trim_space_start.simps) simp
  qed
qed

lemma trim_space_stop_ascii:
  "list_all is_ascii s \<Longrightarrow> start \<le> stop \<Longrightarrow> stop \<le> length s \<Longrightarrow>
     trim_space_stop s start stop =
       Inr (start + length (rev (dropWhile ascii_space (rev (take (stop - start) (drop start s))))))"
proof (induction stop)
  case 0
  then show ?case by (simp add: trim_space_stop.simps)
next
  case (Suc k)
  show ?case
  proof (cases "start = Suc k")
    case True
    then show ?thesis by (simp add: trim_space_stop.simps)
  next
    case False
    then have sk: "start \<le> k" "start < Suc k" using Suc.prems(2) by simp_all
    have w: "take (Suc k - start) (drop start s) = take (k - start) (drop start s) @ [s ! k]"
      using sk Suc.prems(3) by (simp add: take_Suc_conv_app_nth Suc_diff_le)
    have "is_ascii (s ! k)" using Suc.prems(1,3) by (simp add: list_all_length)
    with sk w Suc.IH [OF Suc.prems(1) sk(1)] Suc.prems(3) show ?thesis
      by (subst trim_space_stop.simps) (simp add: Let_def)
  qed
qed

theorem trim_space_ascii:
  "list_all is_ascii s \<Longrightarrow> trim_space s = strip_ascii_space s"
proof -
  assume a: "list_all is_ascii s"
  define start where "start = length (takeWhile ascii_space s)"
  have d: "drop start s = dropWhile ascii_space s" by (simp add: start_def dropWhile_eq_drop)
  have st: "trim_space_start s 0 = Inr start" using trim_space_start_ascii [OF a, of 0] by (simp add: start_def)
  have le: "start \<le> length s" by (simp add: start_def length_takeWhile_le)
  have w: "take (length s - start) (drop start s) = dropWhile ascii_space s"
    by (metis d length_drop take_all_iff order.refl)
  have sp: "trim_space_stop s start (length s) =
      Inr (start + length (rev (dropWhile ascii_space (rev (dropWhile ascii_space s)))))"
    using trim_space_stop_ascii [OF a le order.refl] by (simp only: w)
  show ?thesis
    by (simp add: trim_space_def st sp d strip_ascii_space_def take_rev_dropWhile_rev)
qed

lemma window_take_drop [intro]: "window (take k (drop j s)) s"
  unfolding window_def by blast

lemma window_drop [intro]: "window (drop j s) s"
  using window_take_drop [of "length s" j s] by simp

lemma window_trans: "window r t \<Longrightarrow> window t s \<Longrightarrow> window r s"
proof -
  assume "window r t" "window t s"
  then obtain j k j' k' where "r = take k (drop j t)" "t = take k' (drop j' s)"
    unfolding window_def by blast
  then have "r = take (min k (k' - j)) (drop (j + j') s)"
    by (simp only: drop_take take_take drop_drop)
  then show ?thesis by (simp only: window_take_drop)
qed

lemma trim_left_func_window: "window (trim_left_func f s) s"
proof -
  have "window (drop (length s) s) s" ..
  then show ?thesis by (auto simp: trim_left_func_def Let_def)
qed

lemma trim_right_func_window: "window (trim_right_func f s) s"
  using window_take_drop [of _ 0 s] by (simp add: trim_right_func_def Let_def)

lemma trim_func_window: "window (trim_func f s) s"
  unfolding trim_func_def using trim_right_func_window trim_left_func_window by (rule window_trans)

lemma trim_space_start_window: "trim_space_start s start = Inl r \<Longrightarrow> window r s"
proof (induction s start rule: trim_space_start.induct)
  case (1 s start)
  have w: "window (trim_func is_space (drop start s)) s"
    using trim_func_window window_drop by (rule window_trans)
  from "1.prems" show ?case
    by (subst (asm) trim_space_start.simps) (auto simp: Let_def w "1.IH" split: if_splits)
qed

lemma trim_space_stop_window: "trim_space_stop s start stop = Inl r \<Longrightarrow> window r s"
proof (induction s start stop rule: trim_space_stop.induct)
  case (1 s start stop)
  have w: "window (trim_right_func is_space (take (stop - start) (drop start s))) s"
    using trim_right_func_window window_take_drop by (rule window_trans)
  from "1.prems" show ?case
    by (subst (asm) trim_space_stop.simps) (auto simp: Let_def w "1.IH" split: if_splits)
qed

text \<open>whatever the bytes, valid UTF-8 or not, TrimSpace returns a contiguous piece s[j:j+k] of its input: it only ever removes bytes at the two ends.\<close>
theorem trim_space_window: "window (trim_space s) s"
  by (auto simp: trim_space_def trim_space_start_window trim_space_stop_window
      split: sum.split)

lemma ascii_space_iff: "ascii_space c \<longleftrightarrow> (of_char c :: nat) \<in> {9, 10, 11, 12, 13, 32}"
  by (auto simp: ascii_space_def word_unat_eq_iff)

lemma digit_not_space: "is_digit c \<Longrightarrow> \<not> ascii_space c \<and> is_ascii c"
  by (auto simp: is_digit_def ascii_space_iff is_ascii_def rune_self_def)

lemma strip_ascii_space_snoc:
  assumes "list_all (\<lambda>x. \<not> ascii_space x) s" and "ascii_space c"
  shows "strip_ascii_space (s @ [c]) = s"
proof (cases s)
  case Nil
  then show ?thesis using assms(2) by (simp add: strip_ascii_space_def)
next
  case (Cons x xs)
  have "dropWhile ascii_space (rev s) = rev s"
    using assms(1) by (cases "rev s") (auto simp: list_all_iff)
  then show ?thesis using assms Cons by (simp add: strip_ascii_space_def)
qed

text \<open>C13: on ASCII input, TrimSpace removes exactly the asciiSpace bytes at both ends: the input is the result with a run of spaces before and after it, and a non-empty result neither starts nor ends with a space.\<close>
theorem trim_space_ascii_spec:
  assumes "list_all is_ascii s"
  shows "\<exists>a b. s = a @ trim_space s @ b \<and> list_all ascii_space a \<and> list_all ascii_space b \<and>
           (trim_space s \<noteq> [] \<longrightarrow> \<not> ascii_space (hd (trim_space s)) \<and> \<not> ascii_space (last (trim_space s)))"
proof -
  define d where "d = dropWhile ascii_space s"
  define r where "r = rev (dropWhile ascii_space (rev d))"
  define a where "a = takeWhile ascii_space s"
  define b where "b = rev (takeWhile ascii_space (rev d))"
  have t: "trim_space s = r" using assms by (simp add: trim_space_ascii strip_ascii_space_def r_def d_def)
  have s1: "s = a @ d" by (simp add: d_def a_def)
  have d1: "d = r @ b"
    unfolding r_def b_def by (metis rev_append rev_rev_ident takeWhile_dropWhile_id)
  have la: "list_all ascii_space a" "list_all ascii_space b"
    by (auto simp: list_all_iff a_def b_def dest: set_takeWhileD)
  have "r \<noteq> [] \<Longrightarrow> \<not> ascii_space (hd r) \<and> \<not> ascii_space (last r)"
  proof -
    assume ne: "r \<noteq> []"
    then have "dropWhile ascii_space (rev d) \<noteq> []" by (simp add: r_def)
    then have l: "\<not> ascii_space (last r)" by (simp add: r_def last_rev hd_dropWhile)
    have "d \<noteq> []" using d1 ne by simp
    then have "\<not> ascii_space (hd d)" by (simp add: d_def hd_dropWhile)
    moreover have "hd d = hd r" using d1 ne by simp
    ultimately show ?thesis using l by simp
  qed
  moreover have "s = a @ r @ b" using s1 d1 by simp
  ultimately show ?thesis using la unfolding t by (intro exI [of _ a] exI [of _ b]) simp
qed

subsection \<open>\<open>TrimSpace\<close> on a line of UTF-8\<close>

lemma decode_rune_bytes: "decode_rune s = decode_bytes (length s) (s ! 0) (s ! 1) (s ! 2) (s ! 3)"
  unfolding decode_rune_def decode_bytes_def Let_def ..

lemma first_sz_le: "unat (first b AND 7) \<le> 4"
  by (auto simp: first_def split: if_splits)

lemma decode_bytes_long:
  assumes "4 \<le> n" and "4 \<le> m"
  shows "decode_bytes n c0 c1 c2 c3 = decode_bytes m c0 c1 c2 c3"
proof -
  have "\<not> n < unat (first (byte_of c0) AND 7)" "\<not> m < unat (first (byte_of c0) AND 7)"
    using first_sz_le [of "byte_of c0"] assms by linarith+
  then show ?thesis using assms unfolding decode_bytes_def Let_def by simp
qed

lemma accept_range_sub: "accept_range k = (lo, hi) \<Longrightarrow> locb \<le> lo \<and> hi \<le> hicb"
  by (auto simp: accept_range_def locb_def hicb_def split: if_splits)

lemma first_sz_cases: "\<not> 0xF0 \<le> first b \<Longrightarrow> unat (first b AND 7) = 2 \<or> unat (first b AND 7) = 3 \<or> unat (first b AND 7) = 4"
  by (auto simp: first_def split: if_splits)

lemma noncont_out: "\<not> cont_byte x \<Longrightarrow> locb \<le> lo \<Longrightarrow> hi \<le> hicb \<Longrightarrow> byte_of x < lo \<or> hi < byte_of x"
  unfolding cont_byte_def by (meson order.trans not_le)

lemma noncont_out2: "\<not> cont_byte x \<Longrightarrow> byte_of x < locb \<or> hicb < byte_of x"
  unfolding cont_byte_def by (meson not_le)

lemma decode_bytes_snoc1: "\<not> cont_byte x \<Longrightarrow> decode_bytes (Suc (Suc 0)) c0 x a b = decode_bytes (Suc 0) c0 d e f"
proof -
  assume nc: "\<not> cont_byte x"
  obtain lo hi where ar: "accept_range (drop_bit 4 (first (byte_of c0))) = (lo, hi)" by (cases "accept_range (drop_bit 4 (first (byte_of c0)))")
  note out = noncont_out [OF nc accept_range_sub [OF ar, THEN conjunct1] accept_range_sub [OF ar, THEN conjunct2]]
  show ?thesis
  proof (cases "0xF0 \<le> first (byte_of c0)")
    case True
    then show ?thesis by (simp add: decode_bytes_def)
  next
    case False
    with first_sz_cases [OF False] out ar show ?thesis by (auto simp: decode_bytes_def Let_def)
  qed
qed

lemma decode_bytes_snoc2: "\<not> cont_byte x \<Longrightarrow> decode_bytes (Suc (Suc (Suc 0))) c0 c1 x a = decode_bytes (Suc (Suc 0)) c0 c1 d e"
proof -
  assume nc: "\<not> cont_byte x"
  note out = noncont_out2 [OF nc]
  show ?thesis
  proof (cases "0xF0 \<le> first (byte_of c0)")
    case True
    then show ?thesis by (simp add: decode_bytes_def)
  next
    case False
    with first_sz_cases [OF False] out show ?thesis by (auto simp: decode_bytes_def Let_def split: prod.split)
  qed
qed

lemma decode_bytes_snoc3: "\<not> cont_byte x \<Longrightarrow> decode_bytes (Suc (Suc (Suc (Suc 0)))) c0 c1 c2 x = decode_bytes (Suc (Suc (Suc 0))) c0 c1 c2 d"
proof -
  assume nc: "\<not> cont_byte x"
  note out = noncont_out2 [OF nc]
  show ?thesis
  proof (cases "0xF0 \<le> first (byte_of c0)")
    case True
    then show ?thesis by (simp add: decode_bytes_def)
  next
    case False
    with first_sz_cases [OF False] out show ?thesis by (auto simp: decode_bytes_def Let_def split: prod.split)
  qed
qed

lemma decode_bytes_snoc:
  assumes nc: "\<not> cont_byte x"
  shows "n = 2 \<Longrightarrow> m = 1 \<Longrightarrow> decode_bytes n c0 x a b = decode_bytes m c0 d e f"
    and "n = 3 \<Longrightarrow> m = 2 \<Longrightarrow> decode_bytes n c0 c1 x a = decode_bytes m c0 c1 d e"
    and "n = 4 \<Longrightarrow> m = 3 \<Longrightarrow> decode_bytes n c0 c1 c2 x = decode_bytes m c0 c1 c2 d"
  using decode_bytes_snoc1 [OF nc] decode_bytes_snoc2 [OF nc] decode_bytes_snoc3 [OF nc]
  by (simp_all add: eval_nat_numeral)

lemma decode_rune_snoc:
  assumes "t \<noteq> []" and nc: "\<not> cont_byte x"
  shows "decode_rune (t @ [x]) = decode_rune t"
proof -
  consider "length t = 1" | "length t = 2" | "length t = 3" | "4 \<le> length t"
  proof -
    have "0 < length t" using assms(1) by simp
    then show ?thesis using that by linarith
  qed
  then show ?thesis
  proof cases
    case 1
    then show ?thesis by (simp add: decode_rune_bytes nth_append) (rule decode_bytes_snoc(1) [OF nc]; simp)
  next
    case 2
    then show ?thesis by (simp add: decode_rune_bytes nth_append) (rule decode_bytes_snoc(2) [OF nc]; simp)
  next
    case 3
    then show ?thesis by (simp add: decode_rune_bytes nth_append) (rule decode_bytes_snoc(3) [OF nc]; simp)
  next
    case 4
    then have "(t @ [x]) ! 0 = t ! 0" "(t @ [x]) ! 1 = t ! 1" "(t @ [x]) ! 2 = t ! 2" "(t @ [x]) ! 3 = t ! 3"
      by (auto simp: nth_append)
    then show ?thesis using 4 by (simp add: decode_rune_bytes decode_bytes_long [of "Suc (length t)" "length t"])
  qed
qed

lemma unat_rune_of_byte: "unat (rune_of (byte_of c)) = of_char c"
proof -
  have "(of_char c :: nat) < 256" using unsigned_less [of "byte_of c"] by simp
  then have "(of_char c :: nat) < 4294967296" by linarith
  then show ?thesis by (simp add: rune_of_def unsigned_ucast_eq take_bit_nat_eq_self_iff)
qed

lemma first_ascii: "is_ascii c \<Longrightarrow> first (byte_of c) = 0xF0"
  by (simp add: first_def is_ascii_def rune_self_def word_less_nat_alt)

lemma decode_rune_ascii: "is_ascii c \<Longrightarrow> decode_rune (c # u) = (rune_of (byte_of c), 1)"
  by (simp add: decode_rune_def first_ascii)

lemma is_space_ascii: "is_ascii c \<Longrightarrow> is_space (rune_of (byte_of c)) \<longleftrightarrow> ascii_space c"
proof -
  assume a: "is_ascii c"
  then have lt: "unat (rune_of (byte_of c)) < 128" by (simp add: unat_rune_of_byte is_ascii_def rune_self_def)
  then have le: "rune_of (byte_of c) \<le> max_latin1" by (simp add: max_latin1_def word_le_nat_alt)
  have "rune_of (byte_of c) \<in> {0x09, 0x0A, 0x0B, 0x0C, 0x0D, 0x20, 0x85, 0xA0} \<longleftrightarrow>
        unat (rune_of (byte_of c)) \<in> {9, 10, 11, 12, 13, 32, 133, 160}"
    by (auto simp: word_unat_eq_iff)
  also have "\<dots> \<longleftrightarrow> ascii_space c" using lt by (auto simp: unat_rune_of_byte ascii_space_iff)
  finally show ?thesis using le by (simp add: is_space_def)
qed

lemma decode_last_rune_ascii:
  assumes "t \<noteq> []" and "is_ascii (last t)"
  shows "decode_last_rune t = (rune_of (byte_of (last t)), 1)"
proof -
  have n: "nat (int (length t) - 1) = length t - 1" using assms(1) by simp
  show ?thesis using assms by (simp add: decode_last_rune_def unat_rune_of_byte is_ascii_def last_conv_nth n Let_def)
qed

lemma decode_last_rune_start:
  assumes "t \<noteq> []" and "decode_last_rune t = (r, sz)"
  shows "1 \<le> sz \<and> sz \<le> length t \<and> snd (decode_rune (drop (length t - sz) t)) = sz"
proof -
  have b: "1 \<le> sz \<and> sz \<le> length t" using decode_last_rune_size [OF assms(1)] assms(2) by simp
  define e where "e = int (length t)"
  have e0: "e \<noteq> 0" using assms(1) by (simp add: e_def)
  have "sz = 1 \<or> (\<exists>r'. max (last_start (e - 1 - 1) (max (e - int utf_max) 0) t) 0 + int sz = e \<and>
          decode_rune (drop (nat (max (last_start (e - 1 - 1) (max (e - int utf_max) 0) t) 0)) t) = (r', sz))"
    using assms e0 unfolding decode_last_rune_def Let_def e_def [symmetric]
    by (auto split: if_splits prod.splits)
  then show ?thesis
  proof
    assume "sz = 1"
    moreover have "drop (length t - 1) t \<noteq> []" using assms(1) by (cases t) simp_all
    moreover have "length (drop (length t - 1) t) = 1" using assms(1) by (cases t) simp_all
    ultimately show ?thesis using b decode_rune_size [of "drop (length t - 1) t"] by simp
  next
    assume "\<exists>r'. max (last_start (e - 1 - 1) (max (e - int utf_max) 0) t) 0 + int sz = e \<and>
          decode_rune (drop (nat (max (last_start (e - 1 - 1) (max (e - int utf_max) 0) t) 0)) t) = (r', sz)"
    then obtain r' m where m: "m + int sz = e" "0 \<le> m" "decode_rune (drop (nat m) t) = (r', sz)"
      by auto
    then have "nat m = length t - sz" by (simp add: e_def)
    then show ?thesis using b m by simp
  qed
qed

lemma trim_right_end:
  assumes t: "t \<noteq> []" and d: "decode_last_rune t = (r, sz)"
    and y: "y = [] \<or> (\<exists>x. y = [x] \<and> \<not> cont_byte x)"
  shows "(let i = int (length t - sz) in
          if 0 \<le> i \<and> rune_self \<le> unat (byte_of ((t @ y) ! nat i))
          then i + int (snd (decode_rune (drop (nat i) (t @ y)))) else i + 1) = int (length t)"
proof -
  note st = decode_last_rune_start [OF t d]
  define i where "i = length t - sz"
  have il: "i < length t" using st by (simp add: i_def) linarith
  have ne: "drop i t \<noteq> []" using il by simp
  have dr: "decode_rune (drop i (t @ y)) = decode_rune (drop i t)"
    using y
  proof
    assume "y = []" then show ?thesis by simp
  next
    assume "\<exists>x. y = [x] \<and> \<not> cont_byte x"
    then obtain x where "y = [x]" "\<not> cont_byte x" by blast
    then show ?thesis using il decode_rune_snoc [OF ne] by simp
  qed
  have nth: "(t @ y) ! i = t ! i" using il by (simp add: nth_append)
  have sz: "snd (decode_rune (drop i t)) = sz" using st by (simp add: i_def)
  have isz: "int i + int sz = int (length t)" using st by (simp add: i_def)
  have g: "?thesis \<longleftrightarrow> (if rune_self \<le> unat (byte_of (t ! i))
      then int i + int (snd (decode_rune (drop i t))) else int i + 1) = int (length t)"
    unfolding Let_def i_def [symmetric] nat_int by (simp only: of_nat_0_le_iff simp_thms nth dr)
  show ?thesis
  proof (cases "rune_self \<le> unat (byte_of (t ! i))")
    case True
    then show ?thesis unfolding g using sz isz by simp
  next
    case False
    then have "is_ascii (t ! i)" by (simp add: is_ascii_def not_le)
    moreover have "drop i t = t ! i # drop (Suc i) t" using il by (simp add: Cons_nth_drop_Suc)
    ultimately have "sz = 1" using sz by (simp add: decode_rune_ascii)
    then show ?thesis unfolding g using False isz by simp
  qed
qed

lemma newline_byte: "is_ascii CHR ''\<newline>''" "\<not> cont_byte CHR ''\<newline>''" "ascii_space CHR ''\<newline>''"
  by (simp_all add: is_ascii_def rune_self_def cont_byte_def locb_def ascii_space_def byte_of_def)

lemma last_index_keep:
  "t \<noteq> [] \<Longrightarrow> decode_last_rune t = (r, sz) \<Longrightarrow> \<not> is_space r \<Longrightarrow>
   last_index_func_from is_space False t = int (length t - sz)"
  by (subst last_index_func_from.simps) simp

lemma last_index_skip_space:
  assumes "is_ascii x" and "ascii_space x"
  shows "last_index_func_from is_space False (t @ [x]) = last_index_func_from is_space False t"
proof -
  have "decode_last_rune (t @ [x]) = (rune_of (byte_of x), 1)"
    using decode_last_rune_ascii [of "t @ [x]"] assms(1) by simp
  then show ?thesis using assms is_space_ascii [OF assms(1)]
    by (subst last_index_func_from.simps) simp
qed

lemma trim_right_func_keep:
  assumes t: "t \<noteq> []" and ns: "\<not> is_space (fst (decode_last_rune t))"
    and y: "y = [] \<or> (\<exists>x. y = [x] \<and> \<not> cont_byte x)"
    and li: "last_index_func_from is_space False (t @ y) = last_index_func_from is_space False t"
  shows "trim_right_func is_space (t @ y) = t"
proof -
  obtain r sz where d: "decode_last_rune t = (r, sz)" by (cases "decode_last_rune t")
  have "last_index_func_from is_space False (t @ y) = int (length t - sz)"
    using li last_index_keep [OF t d] ns d by simp
  then show ?thesis using trim_right_end [OF t d y] unfolding trim_right_func_def
    by (simp only: Let_def) simp
qed

lemma trim_left_func_keep:
  "t \<noteq> [] \<Longrightarrow> \<not> is_space (fst (decode_rune t)) \<Longrightarrow> trim_left_func is_space t = t"
  by (subst trim_left_func_def, subst index_func_from.simps) (simp add: case_prod_unfold)

text \<open>For any bytes t, valid UTF-8 or not, whose first and last decoded runes are not white space, TrimSpace of the line t followed by its newline is t: the ASCII loops and the Unicode fallback agree on where to cut.\<close>
theorem trim_space_utf8_line:
  assumes f: "\<not> is_space (fst (decode_rune t))" and l: "\<not> is_space (fst (decode_last_rune t))"
  shows "trim_space (t @ ''\<newline>'') = t"
proof (cases t)
  case Nil
  then show ?thesis using newline_byte
    by (simp add: trim_space_def trim_space_start.simps trim_space_stop.simps is_ascii_def not_le)
next
  case (Cons c u)
  define s where "s = t @ ''\<newline>''"
  have t: "t \<noteq> []" using Cons by simp
  have nl_last: "s ! length t = CHR ''\<newline>''" by (simp add: s_def)
  have keep: "trim_right_func is_space (t @ [CHR ''\<newline>'']) = t"
    using trim_right_func_keep [OF t l] last_index_skip_space [OF newline_byte(1,3)] newline_byte(2) by blast
  show ?thesis
  proof (cases "is_ascii c")
    case True
    have "\<not> ascii_space c" using f True by (simp add: Cons decode_rune_ascii is_space_ascii)
    then have st: "trim_space_start s 0 = Inr 0" using True
      by (subst trim_space_start.simps) (simp add: s_def Cons is_ascii_def not_le)
    have sp: "trim_space_stop s 0 (Suc (length t)) = trim_space_stop s 0 (length t)"
      using newline_byte nl_last
      by (subst trim_space_stop.simps) (simp add: is_ascii_def not_le)
    have lt: "s ! (length t - 1) = last t" using t by (simp add: s_def nth_append last_conv_nth)
    have "trim_space_stop s 0 (length t) = Inr (length t) \<or>
          trim_space_stop s 0 (length t) = Inl (trim_right_func is_space t)"
    proof (cases "is_ascii (last t)")
      case True
      then have "\<not> ascii_space (last t)"
        using l decode_last_rune_ascii [OF t True] is_space_ascii [OF True] by simp
      then show ?thesis using True t lt
        by (subst trim_space_stop.simps) (simp add: is_ascii_def not_le)
    next
      case False
      then show ?thesis using t lt
        by (subst trim_space_stop.simps) (simp add: is_ascii_def not_le s_def)
    qed
    moreover have "trim_right_func is_space t = t"
      using trim_right_func_keep [OF t l, of "[]"] by simp
    moreover have "length s = Suc (length t)" "take (length t) s = t" by (simp_all add: s_def)
    ultimately show ?thesis using st sp unfolding trim_space_def s_def [symmetric] by auto
  next
    case False
    have ls: "trim_left_func is_space s = s"
      using trim_left_func_keep [of s] f decode_rune_snoc [OF t newline_byte(2)] by (simp add: s_def)
    have "trim_space_start s 0 = Inl (trim_func is_space s)" using False
      by (subst trim_space_start.simps) (simp add: s_def Cons is_ascii_def not_le)
    then show ?thesis using ls keep by (simp add: trim_space_def s_def [symmetric] trim_func_def)
  qed
qed

subsection \<open>Instances\<close>

theorem trim_space_ascii_spec_witness:
  "\<exists>a b. '' x '' = a @ trim_space '' x '' @ b \<and> list_all ascii_space a \<and> list_all ascii_space b"
  using trim_space_ascii_spec [of "'' x ''"] by (auto simp: is_ascii_def rune_self_def)

theorem trim_space_utf8_line_witness:
  "trim_space ([CHR 0xC2, CHR 0xB1] @ ''\<newline>'') = [CHR 0xC2, CHR 0xB1]"
proof -
  have f: "\<not> is_space (fst (decode_rune [CHR 0xC2, CHR 0xB1]))" by code_simp
  have l: "\<not> is_space (fst (decode_last_rune [CHR 0xC2, CHR 0xB1]))" by code_simp
  show ?thesis using trim_space_utf8_line [OF f l] .
qed

end
