(* ===== verification/Input.thy ===== *)
theory Input
  imports Strconv Bufio Strings "HOL-Library.Sublist"
begin

text \<open>
  The package \<open>input\<close> (\<open>src/input/input.go\<close>). Its functions act on the process's
  standard streams, modelled as the record \<open>world\<close>: the input still to be read from
  \<open>os.Stdin\<close> (a \<^typ>\<open>stdin\<close>, see theory \<open>Bufio\<close>) and the bytes written to
  \<open>os.Stdout\<close>. Each function returns its Go result pair and the new world.
  \<open>ReadString\<close> builds a fresh \<open>bufio.Reader\<close> on every call and drops it on return,
  so whatever that reader buffered past the line is lost; the model keeps this.
  \<open>ReadInt\<close>, \<open>ReadFloat\<close> and \<open>ReadBool\<close> rebind \<open>err\<close> with the parser's error,
  so the error of \<open>ReadString\<close> is never looked at.
\<close>

record world =
  w_stdin :: stdin
  w_stdout :: string

text \<open>\<open>fmt.Print(prompt)\<close>, guarded by \<open>len(prompt) > 0\<close>.\<close>
definition print_prompt :: "string \<Rightarrow> world \<Rightarrow> world" where
  "print_prompt prompt w = (if 0 < length prompt then w\<lparr>w_stdout := w_stdout w @ prompt\<rparr> else w)"

text \<open>\<open>ReadString(prompt)\<close>.\<close>
definition read_string :: "string \<Rightarrow> world \<Rightarrow> string go_result \<times> world" where
  "read_string prompt w =
     (let w = print_prompt prompt w;
          reader = new_reader
      in case bufio_read_string reader (w_stdin w) of ((input, err), _, sin') \<Rightarrow>
           let w = w\<lparr>w_stdin := sin'\<rparr> in
           if err \<noteq> None then (([], err), w)
           else ((trim_space input, None), w))"

text \<open>\<open>ReadInt(prompt)\<close>: Go's \<open>int\<close> is 64 bits wide.\<close>
definition read_int :: "string \<Rightarrow> world \<Rightarrow> 64 word go_result \<times> world" where
  "read_int prompt w =
     (case read_string prompt w of ((in_str, err), w) \<Rightarrow>
        case atoi in_str of (in_num, err) \<Rightarrow>
          if err \<noteq> None then ((0, err), w) else ((in_num, None), w))"

text \<open>
  \<open>ReadFloat(prompt)\<close>, over its parser \<open>parse_float\<close> and the zero it returns on an
  error; \<open>Read_Float\<close> instantiates them with \<open>strconv.ParseFloat(_, 64)\<close> of \<open>Atof\<close>.
\<close>
definition read_float ::
  "(string \<Rightarrow> 'f go_result) \<Rightarrow> 'f \<Rightarrow> string \<Rightarrow> world \<Rightarrow> 'f go_result \<times> world" where
  "read_float parse_float zero prompt w =
     (case read_string prompt w of ((in_str, err), w) \<Rightarrow>
        case parse_float in_str of (in_num, err) \<Rightarrow>
          if err \<noteq> None then ((zero, err), w) else ((in_num, None), w))"

text \<open>The two \<open>case\<close> lists of the \<open>switch inStr\<close> in \<open>ReadBool\<close>.\<close>
definition yes_answers :: "string list" where
  "yes_answers = [''Y'', ''y'', ''yes'', ''YES'', ''Yes'']"

definition no_answers :: "string list" where
  "no_answers = [''N'', ''n'', ''no'', ''NO'', ''No'']"

text \<open>\<open>ReadBool(prompt, allowYN)\<close>.\<close>
definition read_bool :: "string \<Rightarrow> bool \<Rightarrow> world \<Rightarrow> bool go_result \<times> world" where
  "read_bool prompt allow_yn w =
     (case read_string prompt w of ((in_str, err), w) \<Rightarrow>
        case parse_bool in_str of (in_bool, err) \<Rightarrow>
          if err \<noteq> None then
            (if allow_yn then
               (if in_str \<in> set yes_answers then ((True, None), w)
                else if in_str \<in> set no_answers then ((False, None), w)
                else ((False, err), w))
             else ((False, err), w))
          else ((in_bool, None), w))"


subsection \<open>\<open>ReadString\<close>\<close>

lemma print_prompt_simps [simp]:
  "w_stdin (print_prompt p w) = w_stdin w"
  "w_stdout (print_prompt p w) = w_stdout w @ p"
  by (simp_all add: print_prompt_def)


lemma new_reader_ok [simp]: "rerr new_reader = None" "rbuf new_reader = []"
  by (simp_all add: new_reader_def)


lemma read_string_eq:
  "bufio_read_string new_reader (w_stdin w) = ((line, e0), rd', sin') \<Longrightarrow>
   read_string p w = (if e0 \<noteq> None then ([], e0) else (trim_space line, None),
                      (print_prompt p w)\<lparr>w_stdin := sin'\<rparr>)"
  by (simp add: read_string_def)


lemma read_string_one_chunk:
  assumes "CHR ''\<newline>'' \<notin> set l" and "length (l @ ''\<newline>'' @ extra) \<le> default_buf_size"
  shows "read_string p \<lparr>w_stdin = Chunk (l @ ''\<newline>'' @ extra) # rest, w_stdout = out\<rparr> =
           ((trim_space (l @ ''\<newline>''), None), \<lparr>w_stdin = rest, w_stdout = out @ p\<rparr>)"
  using bufio_read_string_one_chunk [OF assms, of rest]
  by (simp add: read_string_def print_prompt_def)


text \<open>C4: on a well-formed stream whose delivered bytes contain a newline, ReadString returns the trimmed first line with no error, writes the prompt, leaves a well-formed stream, and what is left of the stream is a suffix of the bytes after that line.\<close>
theorem read_string_line:
  assumes "wf_stdin (w_stdin w)" and "CHR ''\<newline>'' \<in> set (stream_text (w_stdin w))"
    and "read_string p w = ((s, e), w')"
  shows "s = trim_space (takeWhile (\<lambda>x. x \<noteq> CHR ''\<newline>'') (stream_text (w_stdin w)) @ ''\<newline>'') \<and>
     e = None \<and> wf_stdin (w_stdin w') \<and> w_stdout w' = w_stdout w @ p \<and>
     suffix (stream_text (w_stdin w'))
       (drop (Suc (length (takeWhile (\<lambda>x. x \<noteq> CHR ''\<newline>'') (stream_text (w_stdin w))))) (stream_text (w_stdin w)))"
proof -
  obtain line e0 rd' sin' where b: "bufio_read_string new_reader (w_stdin w) = ((line, e0), rd', sin')"
    by (cases "bufio_read_string new_reader (w_stdin w)") auto
  have c: "line = takeWhile (\<lambda>x. x \<noteq> CHR ''\<newline>'') (stream_text (w_stdin w)) @ ''\<newline>'' \<and> e0 = None \<and>
        rbuf rd' @ stream_text sin' = drop (length line) (stream_text (w_stdin w)) \<and> wf_stdin sin'"
    using bufio_read_string_content [OF _ assms(1) _ b] assms(2) by (simp add: Let_def)
  then show ?thesis using assms(3) read_string_eq [OF b, of p]
    by (auto simp: suffix_def) metis
qed


lemma read_string_no_line:
  assumes "wf_stdin (w_stdin w)" and "CHR ''\<newline>'' \<notin> set (stream_text (w_stdin w))"
  shows "read_string p w = (([], Some (stream_end (w_stdin w))), (print_prompt p w)\<lparr>w_stdin := after_end (w_stdin w)\<rparr>)"
proof -
  obtain line e0 rd' sin' where b: "bufio_read_string new_reader (w_stdin w) = ((line, e0), rd', sin')"
    by (cases "bufio_read_string new_reader (w_stdin w)") auto
  have c: "e0 = Some (stream_end (w_stdin w)) \<and> sin' = after_end (w_stdin w)"
    using bufio_read_string_content [OF _ assms(1) _ b] assms(2) by (simp add: Let_def)
  then show ?thesis using read_string_eq [OF b, of p] by simp
qed


subsection \<open>\<open>ReadInt\<close>\<close>

lemma atoi_Nil: "snd (atoi []) = Some (syntax_error ''Atoi'' [])"
  by (simp add: atoi_eq_spec int_spec_def)


lemma read_int_eq:
  "read_string p w = ((s, e), w') \<Longrightarrow>
   read_int p w = ((if snd (atoi s) = None then fst (atoi s) else 0, snd (atoi s)), w')"
  by (simp add: read_int_def split: prod.split)


lemma read_int_no_line:
  assumes "wf_stdin (w_stdin w)" and "CHR ''\<newline>'' \<notin> set (stream_text (w_stdin w))"
  shows "read_int p w = ((0, Some (syntax_error ''Atoi'' [])),
                         (print_prompt p w)\<lparr>w_stdin := after_end (w_stdin w)\<rparr>)"
  using read_int_eq [OF read_string_no_line [OF assms]] by (simp add: atoi_Nil)


lemma read_int_one_chunk:
  assumes "CHR ''\<newline>'' \<notin> set l" and "length (l @ ''\<newline>'' @ extra) \<le> default_buf_size"
  shows "read_int p \<lparr>w_stdin = Chunk (l @ ''\<newline>'' @ extra) # rest, w_stdout = out\<rparr> =
     (let r = int_spec ''Atoi'' (trim_space (l @ ''\<newline>''))
      in ((if snd r = None then fst r else 0, snd r), \<lparr>w_stdin = rest, w_stdout = out @ p\<rparr>))"
  using read_int_eq [OF read_string_one_chunk [OF assms]] by (simp add: atoi_eq_spec Let_def)


lemma format_int_chars:
  "list_all (\<lambda>x. \<not> ascii_space x \<and> is_ascii x \<and> x \<noteq> CHR ''\<newline>'') (format_int w)"
proof -
  have m: "\<not> ascii_space CHR ''-'' \<and> is_ascii CHR ''-''"
    by (simp add: ascii_space_iff is_ascii_def rune_self_def)
  have "list_all is_digit (fmt_digits u [])" for u using fmt_digits_props [of u] by simp
  then have "list_all (\<lambda>x. \<not> ascii_space x \<and> is_ascii x \<and> x \<noteq> CHR ''\<newline>'') (fmt_digits u [])" for u
    using nl_not_digit by (auto simp: list_all_iff digit_not_space)
  with m show ?thesis by (simp add: format_int_def)
qed


lemma trim_space_format_int: "trim_space (format_int w @ ''\<newline>'') = format_int w"
proof -
  have "list_all is_ascii (format_int w @ ''\<newline>'')"
    using format_int_chars [of w] by (simp add: list_all_iff is_ascii_def rune_self_def)
  then have "trim_space (format_int w @ ''\<newline>'') = strip_ascii_space (format_int w @ [CHR ''\<newline>''])"
    by (simp add: trim_space_ascii)
  also have "\<dots> = format_int w"
    using format_int_chars [of w] by (intro strip_ascii_space_snoc) (simp_all add: list_all_iff ascii_space_iff)
  finally show ?thesis .
qed


subsection \<open>\<open>ReadBool\<close>\<close>

lemma read_bool_eq:
  "read_string p w = ((s, e), w') \<Longrightarrow>
   read_bool p yn w =
     (if snd (parse_bool s) \<noteq> None then
        (if yn \<and> s \<in> set yes_answers then (True, None)
         else if yn \<and> s \<in> set no_answers then (False, None)
         else (False, snd (parse_bool s)))
      else (fst (parse_bool s), None), w')"
  by (simp add: read_bool_def split: prod.split)

subsection \<open>The world after a call\<close>

lemma read_string_world:
  "snd (read_string p w) = (print_prompt p w)\<lparr>w_stdin := snd (snd (bufio_read_string new_reader (w_stdin w)))\<rparr>"
  by (simp add: read_string_def Let_def split: prod.split)


lemma read_int_world: "snd (read_int p w) = snd (read_string p w)"
  by (simp add: read_int_def split: prod.split)


lemma read_bool_world: "snd (read_bool p yn w) = snd (read_string p w)"
  by (simp add: read_bool_def split: prod.split)


lemma read_string_wf: "wf_stdin (w_stdin w) \<Longrightarrow> wf_stdin (w_stdin (snd (read_string p w)))"
proof -
  assume wf: "wf_stdin (w_stdin w)"
  obtain line e rd' sin' where b: "bufio_read_string new_reader (w_stdin w) = ((line, e), rd', sin')"
    by (cases "bufio_read_string new_reader (w_stdin w)") auto
  have "wf_stdin sin'" using bufio_read_string_content [OF _ wf _ b] wf_after_end [OF wf]
    by (auto simp: Let_def split: if_splits)
  then show ?thesis using b by (simp add: read_string_world)
qed


lemma read_string_Nil: "w_stdin w = [] \<Longrightarrow> fst (read_string p w) = ([], Some EOF) \<and> w_stdin (snd (read_string p w)) = []"
  using read_string_no_line [of w p] by simp


lemma read_string_shrinks:
  assumes "wf_stdin (w_stdin w)" and "w_stdin w \<noteq> []"
  shows "stdin_size (w_stdin (snd (read_string p w))) < stdin_size (w_stdin w)"
proof -
  obtain line e rd' sin' where b: "bufio_read_string new_reader (w_stdin w) = ((line, e), rd', sin')"
    by (cases "bufio_read_string new_reader (w_stdin w)") auto
  have ws: "w_stdin (snd (read_string p w)) = sin'" using b by (simp add: read_string_world)
  note c = bufio_read_string_content [OF _ assms(1) _ b]
  show ?thesis
  proof (cases "CHR ''\<newline>'' \<in> set (stream_text (w_stdin w))")
    case True
    then have "line \<noteq> []" using c by (simp add: Let_def)
    then have "0 < length line" by simp
    moreover have "stdin_size sin' + length (rbuf rd') + length line \<le> stdin_size (w_stdin w)"
      using bufio_read_string_size [OF b] by simp
    ultimately have "stdin_size sin' < stdin_size (w_stdin w)" by linarith
    then show ?thesis using ws by simp
  next
    case False
    then have "sin' = after_end (w_stdin w)" using c by (simp add: Let_def)
    then show ?thesis using ws after_end_size [OF assms(2)] by simp
  qed
qed


subsection \<open>Instances\<close>

theorem read_string_line_witness:
  "fst (fst (read_string [] \<lparr>w_stdin = [Chunk ''ab\<newline>''], w_stdout = []\<rparr>)) = trim_space ''ab\<newline>'' \<and>
   snd (fst (read_string [] \<lparr>w_stdin = [Chunk ''ab\<newline>''], w_stdout = []\<rparr>)) = None"
proof -
  obtain s e w' where r: "read_string [] \<lparr>w_stdin = [Chunk ''ab\<newline>''], w_stdout = []\<rparr> = ((s, e), w')"
    by (cases "read_string [] \<lparr>w_stdin = [Chunk ''ab\<newline>''], w_stdout = []\<rparr>") auto
  have "s = trim_space ''ab\<newline>'' \<and> e = None"
    using read_string_line [of "\<lparr>w_stdin = [Chunk ''ab\<newline>''], w_stdout = []\<rparr>" "[]" s e w'] r by simp
  then show ?thesis using r by simp
qed


end
