(* ===== verification/Binary64.thy ===== *)
theory Binary64
  imports Complex_Main Prelude
begin

text \<open>
  IEEE-754 binary64, the Go \<open>float64\<close>, and rounding to it. A \<open>float64\<close> is the record
  of its three fields (sign, 11-bit biased exponent, 52-bit fraction), so that two
  floats are equal exactly when their bits are; \<open>f_value\<close> is the rational value of a
  finite float. \<open>round64 neg N D\<close> rounds \<open>\<plusminus>N / D\<close> to nearest, ties to even, and
  reports overflow to an infinity: the conversion that \<open>strconv.ParseFloat\<close> documents.
  The lemmas show that it is exact on the value of a finite float and that, without
  overflow, no finite float is nearer to the rounded number than its result.
\<close>

subsection \<open>Binary64 values\<close>

record float64 =
  f_sign :: bool
  f_exp :: "11 word"
  f_frac :: "52 word"

definition is_nan64 :: "float64 \<Rightarrow> bool" where
  "is_nan64 f \<longleftrightarrow> f_exp f = 2047 \<and> f_frac f \<noteq> 0"

definition is_finite64 :: "float64 \<Rightarrow> bool" where
  "is_finite64 f \<longleftrightarrow> f_exp f \<noteq> 2047"

definition is_zero64 :: "float64 \<Rightarrow> bool" where
  "is_zero64 f \<longleftrightarrow> f_exp f = 0 \<and> f_frac f = 0"

text \<open>The significand and the exponent of a finite float: its value is \<open>\<plusminus>f_mant f * 2^f_e f\<close>.\<close>
definition f_mant :: "float64 \<Rightarrow> nat" where
  "f_mant f = (if f_exp f = 0 then unat (f_frac f) else 2 ^ 52 + unat (f_frac f))"

definition f_e :: "float64 \<Rightarrow> int" where
  "f_e f = (if f_exp f = 0 then -1074 else int (unat (f_exp f)) - 1075)"

definition f_value :: "float64 \<Rightarrow> rat" where
  "f_value f = (if f_sign f then -1 else 1) * (of_nat (f_mant f) * 2 powi f_e f)"

text \<open>Go's \<open>==\<close> on \<open>float64\<close>: NaN equals nothing, and the two zeros are equal.\<close>
definition float_eq :: "float64 \<Rightarrow> float64 \<Rightarrow> bool" where
  "float_eq a b \<longleftrightarrow> \<not> is_nan64 a \<and> \<not> is_nan64 b \<and> (a = b \<or> is_zero64 a \<and> is_zero64 b)"

definition zero64 :: "bool \<Rightarrow> float64" where
  "zero64 neg = \<lparr>f_sign = neg, f_exp = 0, f_frac = 0\<rparr>"

text \<open>\<open>math.Inf(sign)\<close> and \<open>math.NaN()\<close> (the bits \<open>0x7FF8000000000001\<close>).\<close>
definition inf64 :: "bool \<Rightarrow> float64" where
  "inf64 neg = \<lparr>f_sign = neg, f_exp = 2047, f_frac = 0\<rparr>"

definition nan64 :: float64 where
  "nan64 = \<lparr>f_sign = False, f_exp = 2047, f_frac = 0x8000000000001\<rparr>"

subsection \<open>Rounding to nearest, ties to even\<close>

text \<open>The number of bits of \<open>n\<close> (\<open>bits.Len\<close>).\<close>
fun nbits :: "nat \<Rightarrow> nat" where
  "nbits n = (if n = 0 then 0 else Suc (nbits (n div 2)))"

declare nbits.simps [simp del]

text \<open>\<open>(N / D) / 2^e\<close> as a fraction of naturals.\<close>
definition scaled :: "nat \<Rightarrow> nat \<Rightarrow> int \<Rightarrow> nat \<times> nat" where
  "scaled N D e = (if 0 \<le> e then (N, D * 2 ^ nat e) else (N * 2 ^ nat (- e), D))"

text \<open>The binade of \<open>N / D > 0\<close>: the \<open>e\<close> with \<open>2^52 \<le> (N / D) / 2^e < 2^53\<close>.\<close>
definition bin_exp :: "nat \<Rightarrow> nat \<Rightarrow> int" where
  "bin_exp N D =
     (let e0 = int (nbits N) - int (nbits D) - 53 in
      case scaled N D e0 of (a, b) \<Rightarrow> if a < 2 ^ 53 * b then e0 else e0 + 1)"

text \<open>\<open>a / b\<close> rounded to the nearest natural, ties to the even one.\<close>
definition round_half_even :: "nat \<Rightarrow> nat \<Rightarrow> nat" where
  "round_half_even a b =
     (let m = a div b; r = a mod b in
      if b < 2 * r \<or> (2 * r = b \<and> odd m) then m + 1 else m)"

text \<open>
  \<open>N / D > 0\<close> as \<open>m * 2^e\<close>, \<open>m < 2^53\<close>, rounded to nearest even at the precision of
  its binade, and at \<open>2^-1074\<close> below the normal range.
\<close>
definition round_pos :: "nat \<Rightarrow> nat \<Rightarrow> nat \<times> int" where
  "round_pos N D =
     (let e = max (bin_exp N D) (-1074) in
      case scaled N D e of (a, b) \<Rightarrow>
        let m = round_half_even a b in if m = 2 ^ 53 then (2 ^ 52, e + 1) else (m, e))"

text \<open>The float \<open>\<plusminus>m * 2^e\<close>, and whether it overflows to an infinity.\<close>
definition encode64 :: "bool \<Rightarrow> nat \<Rightarrow> int \<Rightarrow> float64 \<times> bool" where
  "encode64 neg m e =
     (if m = 0 then (zero64 neg, False)
      else if 971 < e then (inf64 neg, True)
      else if m < 2 ^ 52 then (\<lparr>f_sign = neg, f_exp = 0, f_frac = word_of_nat m\<rparr>, False)
      else (\<lparr>f_sign = neg, f_exp = word_of_nat (nat (e + 1075)), f_frac = word_of_nat (m - 2 ^ 52)\<rparr>, False))"

text \<open>The nearest float to \<open>\<plusminus>N / D\<close>, and whether it overflows.\<close>
definition round64 :: "bool \<Rightarrow> nat \<Rightarrow> nat \<Rightarrow> float64 \<times> bool" where
  "round64 neg N D =
     (if N = 0 then (zero64 neg, False) else case round_pos N D of (m, e) \<Rightarrow> encode64 neg m e)"

text \<open>The sign of a float as a rational factor.\<close>
definition sgn_rat :: "bool \<Rightarrow> rat" where
  "sgn_rat neg = (if neg then -1 else 1)"

subsection \<open>Evaluation\<close>

text \<open>The equations that compute \<open>round64\<close> on literals by \<open>simp\<close>.\<close>
lemmas round64_eval = round64_def round_pos_def bin_exp_def scaled_def round_half_even_def
  encode64_def nbits.simps Let_def

subsection \<open>The binade and exact rounding\<close>

lemma nbits_bounds: "0 < n \<Longrightarrow> 2 ^ (nbits n - 1) \<le> n \<and> n < 2 ^ nbits n"
proof (induction n rule: nbits.induct)
  case (1 n)
  show ?case
  proof (cases "n div 2 = 0")
    case True
    then have "n = 1" using "1.prems" by linarith
    then show ?thesis by (simp add: nbits.simps)
  next
    case False
    then have ih: "2 ^ (nbits (n div 2) - 1) \<le> n div 2 \<and> n div 2 < 2 ^ nbits (n div 2)"
      using "1.IH" "1.prems" by simp
    have nb: "nbits n = Suc (nbits (n div 2))" using "1.prems" by (subst nbits.simps) simp
    obtain k where k: "nbits (n div 2) = Suc k" using ih False by (cases "nbits (n div 2)") auto
    have "2 ^ k \<le> n div 2" "n div 2 < 2 * 2 ^ k" using ih k by simp_all
    moreover have "2 * (n div 2) \<le> n" "n \<le> 2 * (n div 2) + 1" by auto
    ultimately show ?thesis using nb k by simp
  qed
qed

lemma scaled_value:
  assumes "0 < D" and "scaled N D e = (a, b)"
  shows "0 < b \<and> (of_nat a / of_nat b :: rat) = of_nat N / of_nat D / 2 powi e"
proof (cases "0 \<le> e")
  case True
  then have "2 powi e = (2 :: rat) ^ nat e" by (metis nat_0_le power_int_of_nat)
  then show ?thesis using assms True by (auto simp: scaled_def)
next
  case False
  then have "2 powi e = inverse ((2 :: rat) ^ nat (- e))"
    by (metis nat_0_le neg_0_le_iff_le not_le less_imp_le power_int_minus power_int_of_nat minus_minus)
  then show ?thesis using assms False by (auto simp: scaled_def field_simps)
qed

lemma powi_nat_diff: "(2 :: rat) powi (int a - int b) = 2 ^ a / 2 ^ b"
  by (simp add: power_int_diff)

lemma bin_exp_bounds:
  assumes N: "0 < N" and D: "0 < D"
  shows "2 ^ 52 \<le> (of_nat N / of_nat D :: rat) / 2 powi bin_exp N D \<and>
         (of_nat N / of_nat D :: rat) / 2 powi bin_exp N D < 2 ^ 53"
proof -
  define nN nD where "nN = nbits N" and "nD = nbits D"
  define e0 where "e0 = int nN - int nD - 53"
  define y where "y = (of_nat N / of_nat D :: rat) / 2 powi e0"
  have bN: "2 ^ (nN - 1) \<le> N" "N < 2 ^ nN" using nbits_bounds [OF N] by (simp_all add: nN_def)
  have bD: "2 ^ (nD - 1) \<le> D" "D < 2 ^ nD" using nbits_bounds [OF D] by (simp_all add: nD_def)
  have nN1: "1 \<le> nN" using bN by (cases nN) auto
  have nD1: "1 \<le> nD" using bD D by (cases nD) auto
  have e0': "e0 = int nN - int (53 + nD)" by (simp add: e0_def)
  have y: "y = of_nat (N * 2 ^ (53 + nD)) / of_nat (D * 2 ^ nN)"
    unfolding y_def e0' powi_nat_diff by (simp add: field_simps)
  have "2 ^ 52 * (D * 2 ^ nN) < N * 2 ^ (53 + nD)"
  proof -
    have "2 ^ 52 * (D * 2 ^ nN) < 2 ^ 52 * (2 ^ nD * 2 ^ nN)" using bD by simp
    also have "\<dots> = 2 ^ (53 + nD) * 2 ^ (nN - 1)" using nN1 by (cases nN) (simp_all add: power_add mult_ac)
    also have "\<dots> \<le> 2 ^ (53 + nD) * N" using bN by simp
    finally show ?thesis by (simp add: mult.commute)
  qed
  then have "(of_nat (2 ^ 52 * (D * 2 ^ nN)) :: rat) < of_nat (N * 2 ^ (53 + nD))"
    by (simp only: of_nat_less_iff)
  then have lo: "2 ^ 52 < y" unfolding y using D by (simp add: less_divide_eq)
  have "N * 2 ^ (53 + nD) < 2 ^ 54 * (D * 2 ^ nN)"
  proof -
    have "N * 2 ^ (53 + nD) < 2 ^ nN * 2 ^ (53 + nD)" using bN by simp
    also have "\<dots> = 2 ^ 54 * (2 ^ (nD - 1) * 2 ^ nN)" using nD1 by (cases nD) (simp_all add: power_add mult_ac)
    also have "\<dots> \<le> 2 ^ 54 * (D * 2 ^ nN)" using bD by simp
    finally show ?thesis .
  qed
  then have "(of_nat (N * 2 ^ (53 + nD)) :: rat) < of_nat (2 ^ 54 * (D * 2 ^ nN))"
    by (simp only: of_nat_less_iff)
  then have hi: "y < 2 ^ 54" unfolding y using D by (simp add: divide_less_eq)
  obtain a b where ab: "scaled N D e0 = (a, b)" by (cases "scaled N D e0")
  note sv = scaled_value [OF D ab]
  have bpos: "0 < b" and eq: "(of_nat a / of_nat b :: rat) = y" using sv by (simp_all add: y_def)
  have test: "a < 2 ^ 53 * b \<longleftrightarrow> y < 2 ^ 53"
  proof -
    have "a < 2 ^ 53 * b \<longleftrightarrow> (of_nat a :: rat) < 2 ^ 53 * of_nat b"
      by (metis of_nat_less_iff of_nat_mult of_nat_numeral of_nat_power)
    also have "\<dots> \<longleftrightarrow> of_nat a / of_nat b < (2 :: rat) ^ 53" using bpos by (simp add: divide_less_eq)
    finally show ?thesis unfolding eq .
  qed
  show ?thesis
  proof (cases "y < 2 ^ 53")
    case True
    then have be: "bin_exp N D = e0" using test ab by (simp add: bin_exp_def nN_def nD_def e0_def Let_def)
    show ?thesis unfolding be y_def [symmetric] using True lo by simp
  next
    case False
    then have "bin_exp N D = e0 + 1" using test ab by (simp add: bin_exp_def nN_def nD_def e0_def Let_def)
    moreover have "(of_nat N / of_nat D :: rat) / 2 powi (e0 + 1) = y / 2"
      by (simp add: y_def power_int_add)
    ultimately show ?thesis using False hi by (simp only:) simp
  qed
qed

lemma powi_ge_2: "e1 < e2 \<Longrightarrow> (2 :: rat) \<le> 2 powi (e2 - e1)"
proof -
  assume "e1 < e2"
  define k where "k = nat (e2 - e1 - 1)"
  have k: "e2 - e1 = int (Suc k)" using \<open>e1 < e2\<close> by (simp add: k_def)
  have "(2 :: rat) \<le> 2 ^ Suc k" using one_le_power [of "2 :: rat" k] by simp
  then show ?thesis unfolding k power_int_of_nat .
qed

lemma binade_unique:
  assumes "2 ^ 52 \<le> x / 2 powi e1" "x / 2 powi e1 < (2 :: rat) ^ 53"
    and "2 ^ 52 \<le> x / 2 powi e2" "x / 2 powi e2 < (2 :: rat) ^ 53"
  shows "e1 = e2"
proof -
  have *: "x / 2 powi a = (x / 2 powi b) * 2 powi (b - a)" for a b :: int
    by (simp add: power_int_diff field_simps)
  have False if "a < b" "2 ^ 52 \<le> x / 2 powi b" "x / 2 powi a < (2 :: rat) ^ 53" for a b
  proof -
    have "(2 :: rat) ^ 52 * 2 \<le> (x / 2 powi b) * 2 powi (b - a)"
      using powi_ge_2 [OF that(1)] that(2) by (intro mult_mono) auto
    then show False using that(3) unfolding * [of a b] by simp
  qed
  then show ?thesis using assms by (metis linorder_neqE)
qed

lemma round_half_even_exact: "0 < b \<Longrightarrow> round_half_even (m * b) b = m"
  by (simp add: round_half_even_def)

lemma round_pos_exact:
  assumes D: "0 < D" and m: "0 < m" "m < 2 ^ 53" and norm: "2 ^ 52 \<le> m \<or> e = -1074"
    and e: "-1074 \<le> e" and x: "(of_nat N / of_nat D :: rat) = of_nat m * 2 powi e"
  shows "round_pos N D = (m, e)"
proof -
  have N: "0 < N" using x m D by (cases N) auto
  define e' where "e' = bin_exp N D"
  have b1: "2 ^ 52 \<le> (of_nat N / of_nat D :: rat) / 2 powi e'"
    and b2: "(of_nat N / of_nat D :: rat) / 2 powi e' < 2 ^ 53"
    using bin_exp_bounds [OF N D] by (simp_all add: e'_def)
  have xm: "(of_nat N / of_nat D :: rat) / 2 powi e = of_nat m" using x by simp
  have mx: "max e' (-1074) = e"
  proof (cases "2 ^ 52 \<le> m")
    case True
    then have "(2 :: rat) ^ 52 \<le> of_nat m" "of_nat m < (2 :: rat) ^ 53"
      using m by (simp_all add: of_nat_le_iff [symmetric] of_nat_less_iff [symmetric] del: of_nat_le_iff of_nat_less_iff)
    then have "e' = e" using binade_unique [OF b1 b2, of e] xm by simp
    then show ?thesis using e by simp
  next
    case False
    then have e1: "e = -1074" using norm by simp
    have "e' \<le> -1074"
    proof (rule ccontr)
      assume "\<not> e' \<le> -1074"
      then have lt: "e < e'" using e1 by simp
      have "(of_nat N / of_nat D :: rat) / 2 powi e = (of_nat N / of_nat D / 2 powi e') * 2 powi (e' - e)"
        by (simp add: power_int_diff field_simps)
      moreover have "(2 :: rat) ^ 52 * 2 \<le> (of_nat N / of_nat D / 2 powi e') * 2 powi (e' - e)"
        using powi_ge_2 [OF lt] b1 by (intro mult_mono) auto
      ultimately have "(2 :: rat) ^ 52 * 2 \<le> of_nat m" using xm by simp
      moreover have "of_nat m < (2 :: rat) ^ 52"
        using False by (simp add: of_nat_less_iff [symmetric] del: of_nat_less_iff)
      ultimately show False by simp
    qed
    then show ?thesis using e1 by simp
  qed
  obtain a b' where ab: "scaled N D e = (a, b')" by (cases "scaled N D e")
  note sv = scaled_value [OF D ab]
  have "(of_nat a :: rat) = of_nat m * of_nat b'" using sv xm by (simp add: divide_eq_eq)
  then have a: "a = m * b'" by (metis of_nat_eq_iff of_nat_mult)
  show ?thesis using m sv by (simp add: round_pos_def e'_def [symmetric] mx ab a round_half_even_exact Let_def)
qed

lemma word_of_nat_unat_id [simp]: "word_of_nat (unat w) = w"
  by simp

lemma f_exp_le: "is_finite64 f \<Longrightarrow> unat (f_exp f) \<le> 2046"
proof -
  assume "is_finite64 f"
  then have "unat (f_exp f) \<noteq> 2047" by (auto simp: is_finite64_def word_unat_eq_iff)
  moreover have "unat (f_exp f) < 2048" using unsigned_less [of "f_exp f"] by simp
  ultimately show ?thesis by linarith
qed

lemma f_mant_bounds: "f_mant f < 2 ^ 53 \<and> (2 ^ 52 \<le> f_mant f \<or> f_e f = -1074) \<and> -1074 \<le> f_e f"
proof -
  have fr: "unat (f_frac f) < 2 ^ 52" using unsigned_less [of "f_frac f"] by simp
  show ?thesis
  proof (cases "f_exp f = 0")
    case True
    then show ?thesis using fr by (simp add: f_mant_def f_e_def)
  next
    case False
    then have "0 < unat (f_exp f)" by (simp add: unat_gt_0)
    then have "-1074 \<le> int (unat (f_exp f)) - 1075" by linarith
    then show ?thesis using False fr by (simp add: f_mant_def f_e_def del: of_nat_unat)
  qed
qed

lemma encode64_f:
  assumes "is_finite64 f" and "f_mant f \<noteq> 0"
  shows "encode64 (f_sign f) (f_mant f) (f_e f) = (f, False)"
proof -
  have le: "unat (f_exp f) \<le> 2046" using f_exp_le [OF assms(1)] .
  have fr: "unat (f_frac f) < 2 ^ 52" using unsigned_less [of "f_frac f"] by simp
  show ?thesis
  proof (cases "f_exp f = 0")
    case True
    then show ?thesis using assms(2) fr by (simp add: encode64_def f_mant_def f_e_def)
  next
    case False
    have "int (unat (f_exp f)) \<le> 2046" using le by linarith
    then have "uint (f_exp f) \<le> 2046" by simp
    then show ?thesis using False by (simp add: encode64_def f_mant_def f_e_def)
  qed
qed

lemma round64_exact:
  assumes fin: "is_finite64 f" and D: "0 < D"
    and x: "(of_nat N / of_nat D :: rat) = of_nat (f_mant f) * 2 powi f_e f"
  shows "round64 (f_sign f) N D = (f, False)"
proof (cases "f_mant f = 0")
  case True
  then have "N = 0" using x D by simp
  moreover have "f = zero64 (f_sign f)" using True
    by (cases f) (simp add: zero64_def f_mant_def unat_eq_0 split: if_splits)
  ultimately show ?thesis by (simp add: round64_def)
next
  case False
  note bd = f_mant_bounds [of f]
  have "round_pos N D = (f_mant f, f_e f)"
    using round_pos_exact [OF D _ _ _ _ x] False bd by simp
  moreover have "N \<noteq> 0"
  proof
    assume "N = 0"
    then have "(of_nat (f_mant f) :: rat) * 2 powi f_e f = 0" using x by simp
    then show False using False by simp
  qed
  ultimately show ?thesis using encode64_f [OF fin False] by (simp add: round64_def)
qed

subsection \<open>Rounding to nearest\<close>

lemma round_half_even_nearest:
  assumes b: "0 < b"
  shows "\<bar>of_nat (round_half_even a b) - of_nat a / of_nat b\<bar> \<le> \<bar>of_int j - of_nat a / of_nat b :: rat\<bar>"
proof -
  define q r where "q = a div b" and "r = a mod b"
  have a: "a = q * b + r" and rb: "r < b" using b by (simp_all add: q_def r_def)
  define y where "y = (of_nat a / of_nat b :: rat)"
  define t where "t = (of_nat r / of_nat b :: rat)"
  have y: "y = of_nat q + t" using b by (simp add: y_def t_def a field_simps)
  have t: "0 \<le> t" "t < 1" using rb b by (simp_all add: t_def)
  have tt: "t = of_nat (2 * r) / (2 * of_nat b)" using b by (simp add: t_def)
  have half: "2 * r \<le> b \<longleftrightarrow> t \<le> 1 / 2" "b \<le> 2 * r \<longleftrightarrow> 1 / 2 \<le> t"
    using b unfolding tt by (simp_all add: field_simps del: of_nat_mult)
  have dist: "\<bar>of_int j - y\<bar> \<ge> min t (1 - t)"
  proof (cases "j \<le> int q")
    case True
    then have "of_int j \<le> (of_nat q :: rat)" by (metis of_int_le_iff of_int_of_nat_eq)
    then show ?thesis using y t by simp
  next
    case False
    then have "(of_nat q :: rat) + 1 \<le> of_int j" by (metis of_int_le_iff of_int_of_nat_eq of_int_1 of_int_add zless_imp_add1_zle not_le)
    then show ?thesis using y t by simp
  qed
  show ?thesis
  proof (cases "b < 2 * r \<or> (2 * r = b \<and> odd q)")
    case True
    then have m: "round_half_even a b = q + 1" by (simp add: round_half_even_def q_def r_def Let_def)
    have "b \<le> 2 * r" using True by auto
    then have "1 / 2 \<le> t" using half by simp
    then show ?thesis using dist y t unfolding m y_def [symmetric] by simp
  next
    case False
    then have m: "round_half_even a b = q" by (simp add: round_half_even_def q_def r_def Let_def)
    have "2 * r \<le> b" using False by auto
    then have "t \<le> 1 / 2" using half by simp
    then show ?thesis using dist y t unfolding m y_def [symmetric] by simp
  qed
qed

lemma round_half_even_le: "0 < b \<Longrightarrow> round_half_even a b \<le> a div b + 1"
  by (simp add: round_half_even_def Let_def)

lemma round_half_even_ge: "round_half_even a b \<ge> a div b"
  by (simp add: round_half_even_def Let_def)

lemma round_pos_nearest:
  assumes N: "0 < N" and D: "0 < D" and r: "round_pos N D = (m, e)"
  defines "x \<equiv> (of_nat N / of_nat D :: rat)"
  shows "m < 2 ^ 53 \<and> (2 ^ 52 \<le> m \<or> e = -1074) \<and> -1074 \<le> e \<and>
    (\<exists>e1. -1074 \<le> e1 \<and> (e1 = -1074 \<or> 2 ^ 52 * 2 powi e1 \<le> x) \<and>
       (\<forall>j. \<bar>of_nat m * 2 powi e - x\<bar> \<le> \<bar>of_int j * 2 powi e1 - x\<bar>))"
proof -
  define be where "be = bin_exp N D"
  define e1 where "e1 = max be (-1074)"
  obtain a b where ab: "scaled N D e1 = (a, b)" by (cases "scaled N D e1")
  note sv = scaled_value [OF D ab]
  have b: "0 < b" and y: "(of_nat a / of_nat b :: rat) = x / 2 powi e1" using sv by (simp_all add: x_def)
  define m0 where "m0 = round_half_even a b"
  have me: "(m, e) = (if m0 = 2 ^ 53 then (2 ^ 52, e1 + 1) else (m0, e1))"
    using r ab by (auto simp: round_pos_def be_def e1_def m0_def Let_def split: if_splits)
  have bb: "2 ^ 52 \<le> x / 2 powi be" "x / 2 powi be < 2 ^ 53"
    using bin_exp_bounds [OF N D] by (simp_all add: x_def be_def)
  have ylt: "x / 2 powi e1 < 2 ^ 53"
  proof (cases "be < -1074")
    case True
    then have lt: "be < e1" by (simp add: e1_def)
    define z where "z = x / 2 powi e1"
    have xz: "x / 2 powi be = z * 2 powi (e1 - be)" by (simp add: z_def power_int_diff field_simps)
    have z0: "0 \<le> z" by (simp add: x_def z_def)
    have "z * 2 \<le> z * 2 powi (e1 - be)" using powi_ge_2 [OF lt] z0 by (rule mult_left_mono)
    then have "z * 2 < 2 ^ 53" using bb(2) xz by simp
    then have "z < 2 ^ 53" using z0 by linarith
    then show ?thesis by (simp only: z_def)
  next
    case False
    then show ?thesis using bb(2) by (simp add: e1_def)
  qed
  have alt: "a < 2 ^ 53 * b"
  proof -
    have "(of_nat a / of_nat b :: rat) < 2 ^ 53" using ylt by (simp only: y)
    then have "(of_nat a :: rat) < 2 ^ 53 * of_nat b" using b by (simp add: divide_less_eq)
    then show ?thesis by (metis of_nat_less_iff of_nat_mult of_nat_numeral of_nat_power)
  qed
  then have "a div b < 2 ^ 53" using b by (simp add: div_less_iff_less_mult mult.commute)
  then have m0le: "m0 \<le> 2 ^ 53" using round_half_even_le [OF b, of a] by (simp add: m0_def)
  have norm: "be = e1 \<Longrightarrow> 2 ^ 52 \<le> m0"
  proof -
    assume "be = e1"
    then have "(2 :: rat) ^ 52 \<le> of_nat a / of_nat b" using bb(1) by (simp only: y)
    then have "(2 :: rat) ^ 52 * of_nat b \<le> of_nat a" using b by (simp add: le_divide_eq)
    then have "2 ^ 52 * b \<le> a" by (metis of_nat_le_iff of_nat_mult of_nat_numeral of_nat_power)
    then have "(2 ^ 52 * b) div b \<le> a div b" by (rule div_le_mono)
    then have "2 ^ 52 \<le> a div b" using b by simp
    then show ?thesis using round_half_even_ge [of a b] by (simp add: m0_def)
  qed
  have near: "\<bar>of_nat m0 * 2 powi e1 - x\<bar> \<le> \<bar>of_int j * 2 powi e1 - x\<bar>" for j
  proof -
    have p: "(0 :: rat) < 2 powi e1" by simp
    have "\<bar>of_nat m0 - x / 2 powi e1\<bar> \<le> \<bar>of_int j - x / 2 powi e1\<bar>"
      using round_half_even_nearest [OF b, of a j] y by (simp add: m0_def)
    then have "\<bar>of_nat m0 - x / 2 powi e1\<bar> * 2 powi e1 \<le> \<bar>of_int j - x / 2 powi e1\<bar> * 2 powi e1"
      using p by (simp add: mult_right_mono)
    moreover have "\<bar>c - x / 2 powi e1\<bar> * 2 powi e1 = \<bar>c * 2 powi e1 - x\<bar>" for c
    proof -
      have "\<bar>c - x / 2 powi e1\<bar> * 2 powi e1 = \<bar>(c - x / 2 powi e1) * 2 powi e1\<bar>"
        using p by (simp add: abs_mult)
      also have "(c - x / 2 powi e1) * 2 powi e1 = c * 2 powi e1 - x"
        using p by (simp add: left_diff_distrib)
      finally show ?thesis .
    qed
    ultimately show ?thesis by simp
  qed
  have val: "of_nat m * 2 powi e = (of_nat m0 * 2 powi e1 :: rat)"
    using me by (auto simp: power_int_add split: if_splits)
  have part1: "m < 2 ^ 53 \<and> (2 ^ 52 \<le> m \<or> e = -1074) \<and> -1074 \<le> e"
    using me m0le norm by (auto simp: e1_def split: if_splits)
  have "e1 = -1074 \<or> 2 ^ 52 * 2 powi e1 \<le> x"
  proof (cases "be = e1")
    case True
    then show ?thesis using bb(1) by (simp add: le_divide_eq)
  next
    case False
    then show ?thesis by (simp add: e1_def)
  qed
  then show ?thesis using part1 near val by (intro conjI exI [of _ e1]) (auto simp: e1_def)
qed

lemma grid_nearest:
  assumes near: "\<forall>j. \<bar>v - xp\<bar> \<le> \<bar>of_int j * 2 powi e1 - xp :: rat\<bar>"
    and low: "e1 = -1074 \<or> 2 ^ 52 * 2 powi e1 \<le> xp" and xp: "0 \<le> xp"
    and n: "n < 2 ^ 53" and c: "-1074 \<le> c" and wc: "w \<le> 0 \<or> w = of_nat n * 2 powi c"
  shows "\<bar>v - xp\<bar> \<le> \<bar>w - xp\<bar>"
  using wc
proof
  assume "w \<le> 0"
  then have "\<bar>of_int 0 * 2 powi e1 - xp\<bar> \<le> \<bar>w - xp\<bar>" using xp by simp
  then show ?thesis using near by (meson order.trans)
next
  assume w: "w = of_nat n * 2 powi c"
  show ?thesis
  proof (cases "e1 \<le> c")
    case True
    have p1: "(2 :: rat) powi c = 2 powi (c - e1) * 2 powi e1" by (simp add: power_int_add [symmetric])
    have p2: "(2 :: rat) powi (c - e1) = 2 ^ nat (c - e1)"
      using True by (metis nat_0_le diff_ge_0_iff_ge power_int_of_nat)
    have "w = of_int (int n * 2 ^ nat (c - e1)) * 2 powi e1"
      by (simp add: w p1 p2)
    then show ?thesis using near by metis
  next
    case False
    then have e1: "2 ^ 52 * 2 powi e1 \<le> xp" using low c by auto
    have "w \<le> 2 ^ 53 * 2 powi c"
      using n unfolding w by (intro mult_right_mono) (simp_all add: of_nat_less_iff [symmetric] less_imp_le del: of_nat_less_iff)
    also have "(2 :: rat) ^ 53 * 2 powi c \<le> 2 ^ 52 * 2 powi e1"
    proof -
      have "(2 :: rat) ^ 53 * 2 powi c = 2 ^ 52 * 2 powi (c + 1)" by (simp add: power_int_add)
      also have "\<dots> \<le> 2 ^ 52 * 2 powi e1" using False by (intro mult_left_mono power_int_increasing) auto
      finally show ?thesis .
    qed
    finally have "w \<le> 2 ^ 52 * 2 powi e1" .
    then have "\<bar>of_int (2 ^ 52) * 2 powi e1 - xp\<bar> \<le> \<bar>w - xp\<bar>" using e1 by simp
    then show ?thesis using near by (meson order.trans)
  qed
qed

lemma unat_word_of_nat_small: "n < 2 ^ LENGTH('a) \<Longrightarrow> unat (word_of_nat n :: 'a::len word) = n"
  by (simp add: unsigned_of_nat take_bit_nat_eq_self_iff)

lemma encode64_props:
  assumes m: "0 < m" "m < 2 ^ 53" and norm: "2 ^ 52 \<le> m \<or> e = -1074" and e: "-1074 \<le> e"
    and enc: "encode64 neg m e = (f, False)"
  shows "is_finite64 f \<and> f_sign f = neg \<and> f_mant f = m \<and> f_e f = e"
proof -
  have e971: "e \<le> 971" using enc m by (auto simp: encode64_def split: if_splits)
  show ?thesis
  proof (cases "m < 2 ^ 52")
    case True
    then have f: "f = \<lparr>f_sign = neg, f_exp = 0, f_frac = word_of_nat m\<rparr>"
      using enc m by (simp add: encode64_def split: if_splits)
    have "unat (word_of_nat m :: 52 word) = m" using True by (simp add: unat_word_of_nat_small)
    then show ?thesis using True norm unfolding f by (simp add: is_finite64_def f_mant_def f_e_def)
  next
    case False
    define E where "E = nat (e + 1075)"
    have E: "1 \<le> E" "E \<le> 2046" "int E = e + 1075" using e e971 by (simp_all add: E_def)
    have f: "f = \<lparr>f_sign = neg, f_exp = word_of_nat E, f_frac = word_of_nat (m - 2 ^ 52)\<rparr>"
      using enc m False e971 by (simp add: encode64_def E_def split: if_splits)
    have ue: "unat (word_of_nat E :: 11 word) = E" using E by (simp add: unat_word_of_nat_small)
    have uf: "unat (word_of_nat (m - 2 ^ 52) :: 52 word) = m - 2 ^ 52" using m by (simp add: unat_word_of_nat_small)
    have ne: "(word_of_nat E :: 11 word) \<noteq> 0" "(word_of_nat E :: 11 word) \<noteq> 2047"
      using ue E by (auto dest: arg_cong [of _ _ unat])
    show ?thesis unfolding f using ne ue uf E False by (simp add: is_finite64_def f_mant_def f_e_def)
  qed
qed

lemma sgn_rat_dist: "\<bar>a - sgn_rat s * b\<bar> = \<bar>sgn_rat s * a - b\<bar>"
  by (cases s) (simp_all add: sgn_rat_def abs_minus_commute)

lemma f_value_sgn: "sgn_rat s * f_value g \<le> 0 \<or>
                     sgn_rat s * f_value g = of_nat (f_mant g) * 2 powi f_e g"
  by (cases s; cases "f_sign g") (simp_all add: sgn_rat_def f_value_def)

lemma round64_nearest:
  assumes D: "0 < D" and r: "round64 neg N D = (f, False)"
  defines "x \<equiv> sgn_rat neg * (of_nat N / of_nat D)"
  shows "is_finite64 f \<and> (\<forall>g. is_finite64 g \<longrightarrow> \<bar>f_value f - x\<bar> \<le> \<bar>f_value g - x\<bar>)"
proof (cases "N = 0")
  case True
  then have f: "f = zero64 neg" using r by (simp add: round64_def)
  then show ?thesis using True by (simp add: x_def zero64_def f_value_def f_mant_def is_finite64_def)
next
  case False
  then have N: "0 < N" by simp
  define xp where "xp = (of_nat N / of_nat D :: rat)"
  have xp0: "0 \<le> xp" by (simp add: xp_def)
  obtain m e where me: "round_pos N D = (m, e)" by (cases "round_pos N D")
  note rp = round_pos_nearest [OF N D me, folded xp_def]
  obtain e1 where e1: "-1074 \<le> e1" "e1 = -1074 \<or> 2 ^ 52 * 2 powi e1 \<le> xp"
    and near: "\<forall>j. \<bar>of_nat m * 2 powi e - xp\<bar> \<le> \<bar>of_int j * 2 powi e1 - xp\<bar>" using rp by blast
  have enc: "encode64 neg m e = (f, False)" using r False me by (simp add: round64_def)
  have fin: "is_finite64 f" and fv: "f_value f = sgn_rat neg * (of_nat m * 2 powi e)"
  proof -
    have "is_finite64 f \<and> f_value f = sgn_rat neg * (of_nat m * 2 powi e)"
    proof (cases "m = 0")
      case True
      then have "f = zero64 neg" using enc by (simp add: encode64_def)
      then show ?thesis using True
        by (simp add: zero64_def f_value_def f_mant_def is_finite64_def sgn_rat_def)
    next
      case m0: False
      then show ?thesis using encode64_props [OF _ _ _ _ enc] rp
        by (simp add: f_value_def sgn_rat_def)
    qed
    then show "is_finite64 f" "f_value f = sgn_rat neg * (of_nat m * 2 powi e)" by simp_all
  qed
  have "\<bar>f_value f - x\<bar> \<le> \<bar>f_value g - x\<bar>" if g: "is_finite64 g" for g
  proof -
    have "\<bar>f_value f - x\<bar> = \<bar>of_nat m * 2 powi e - xp\<bar>"
      unfolding fv x_def xp_def sgn_rat_dist by (cases neg) (simp_all add: sgn_rat_def)
    also have "\<dots> \<le> \<bar>sgn_rat neg * f_value g - xp\<bar>"
      using grid_nearest [OF near e1(2) xp0 _ _ f_value_sgn [of neg g]] f_mant_bounds [of g] by simp
    also have "\<dots> = \<bar>f_value g - x\<bar>" unfolding x_def xp_def sgn_rat_dist ..
    finally show ?thesis .
  qed
  then show ?thesis using fin by blast
qed

end
