(* ===== verification/Atof.thy ===== *)
theory Atof
  imports Binary64 Strconv
begin

text \<open>
  \<open>strconv.ParseFloat(s, 64)\<close>, the parser behind \<open>ReadFloat\<close>. The syntax follows
  the Go library (\<open>strconv/atof.go\<close>: \<open>special\<close>, \<open>readFloat\<close>, \<open>ParseFloat\<close>;
  \<open>underscoreOK\<close> in \<open>atoi.go\<close>). The conversion of the scanned mantissa and
  exponent to a float (the exact path, Eisel-Lemire, the decimal slow path and
  \<open>atofHex\<close>) is modelled by what the library documents it computes: the nearest
  binary64 value, ties to even (\<open>round64\<close>), with \<open>ErrRange\<close> and an infinity on
  overflow. The lemmas show that ParseFloat returns the float nearest to the value of
  the literal, and that the exact decimal literal of every finite float parses back to
  that float, bit for bit.
\<close>

subsection \<open>Syntax\<close>

text \<open>\<open>commonPrefixLenIgnoreCase(s, prefix)\<close>: \<open>prefix\<close> is lower case.\<close>
fun common_prefix_len_ic :: "string \<Rightarrow> string \<Rightarrow> nat" where
  "common_prefix_len_ic (c # cs) (p # ps) = (if ascii_lower c = p then Suc (common_prefix_len_ic cs ps) else 0)"
| "common_prefix_len_ic _ _ = 0"

text \<open>\<open>special(s)\<close>: a signed infinity or an unsigned NaN at the start of \<open>s\<close>, and its length.\<close>
definition special :: "string \<Rightarrow> (float64 \<times> nat) option" where
  "special s =
     (case s of [] \<Rightarrow> None
      | c # rest \<Rightarrow>
          if c \<in> {CHR ''+'', CHR ''-'', CHR ''i'', CHR ''I''} then
            (let nsign = (if c \<in> {CHR ''+'', CHR ''-''} then 1 else 0);
                 t = (if nsign = 1 then rest else s);
                 n = common_prefix_len_ic t ''infinity'';
                 n = (if 3 < n \<and> n < 8 then 3 else n)
             in if n = 3 \<or> n = 8 then Some (inf64 (c = CHR ''-''), nsign + n) else None)
          else if c \<in> {CHR ''n'', CHR ''N''} then
            (if common_prefix_len_ic s ''nan'' = 3 then Some (nan64, 3) else None)
          else None)"

text \<open>A hexadecimal letter digit: \<open>'a' <= lower(c) && lower(c) <= 'f'\<close>.\<close>
definition is_hex_letter :: "char \<Rightarrow> bool" where
  "is_hex_letter c \<longleftrightarrow> byte_of CHR ''a'' \<le> lower (byte_of c) \<and> lower (byte_of c) \<le> byte_of CHR ''f''"

definition hex_letter_val :: "char \<Rightarrow> nat" where
  "hex_letter_val c = unat (lower (byte_of c)) - 87"

text \<open>The state of the mantissa loop of \<open>readFloat\<close>. The mantissa is kept whole
  (the library keeps 19 digits and a truncation flag for its conversion algorithms).\<close>
record mscan =
  ms_mant :: nat
  ms_nd :: nat
  ms_dp :: int
  ms_sawdot :: bool
  ms_sawdigits :: bool
  ms_underscores :: bool

definition mscan0 :: mscan where
  "mscan0 = \<lparr>ms_mant = 0, ms_nd = 0, ms_dp = 0, ms_sawdot = False, ms_sawdigits = False,
             ms_underscores = False\<rparr>"

text \<open>The \<open>loop:\<close> of \<open>readFloat\<close> over the digits, with \<open>base\<close> 10 or 16; it returns the
  state and the rest of the string.\<close>
fun scan_mant :: "nat \<Rightarrow> mscan \<Rightarrow> string \<Rightarrow> mscan \<times> string" where
  "scan_mant base st [] = (st, [])"
| "scan_mant base st (c # cs) =
     (if c = CHR ''_'' then scan_mant base (st\<lparr>ms_underscores := True\<rparr>) cs
      else if c = CHR ''.'' then
        (if ms_sawdot st then (st, c # cs)
         else scan_mant base (st\<lparr>ms_sawdot := True, ms_dp := int (ms_nd st)\<rparr>) cs)
      else if is_digit c then
        (if c = CHR ''0'' \<and> ms_nd st = 0
         then scan_mant base (st\<lparr>ms_sawdigits := True, ms_dp := ms_dp st - 1\<rparr>) cs
         else scan_mant base (st\<lparr>ms_sawdigits := True, ms_nd := ms_nd st + 1,
                                  ms_mant := ms_mant st * base + digit_val c\<rparr>) cs)
      else if base = 16 \<and> is_hex_letter c then
        scan_mant base (st\<lparr>ms_sawdigits := True, ms_nd := ms_nd st + 1,
                            ms_mant := ms_mant st * base + hex_letter_val c\<rparr>) cs
      else (st, c # cs))"

text \<open>The exponent loop: digits and underscores, the value capped as \<open>if e < 10000\<close>.\<close>
fun scan_exp :: "nat \<Rightarrow> bool \<Rightarrow> string \<Rightarrow> nat \<times> bool \<times> string" where
  "scan_exp e us [] = (e, us, [])"
| "scan_exp e us (c # cs) =
     (if c = CHR ''_'' then scan_exp e True cs
      else if is_digit c then scan_exp (if e < 10000 then e * 10 + digit_val c else e) us cs
      else (e, us, c # cs))"

text \<open>\<open>underscoreOK\<close>: what the last character was.\<close>
datatype saw = SawStart | SawDigit | SawUnderscore | SawOther

fun underscore_loop :: "bool \<Rightarrow> saw \<Rightarrow> string \<Rightarrow> bool" where
  "underscore_loop hex saw [] = (saw \<noteq> SawUnderscore)"
| "underscore_loop hex saw (c # cs) =
     (if is_digit c \<or> hex \<and> is_hex_letter c then underscore_loop hex SawDigit cs
      else if c = CHR ''_'' then (saw = SawDigit \<and> underscore_loop hex SawUnderscore cs)
      else if saw = SawUnderscore then False
      else underscore_loop hex SawOther cs)"

text \<open>\<open>underscoreOK(s)\<close>: underscores only between digits, or after a base prefix.\<close>
definition underscore_ok :: "string \<Rightarrow> bool" where
  "underscore_ok s =
     (let s = (if s \<noteq> [] \<and> hd s \<in> {CHR ''-'', CHR ''+''} then tl s else s) in
      if 2 \<le> length s \<and> s ! 0 = CHR ''0'' \<and>
         lower (byte_of (s ! 1)) \<in> {byte_of CHR ''b'', byte_of CHR ''o'', byte_of CHR ''x''}
      then underscore_loop (lower (byte_of (s ! 1)) = byte_of CHR ''x'') SawDigit (drop 2 s)
      else underscore_loop False SawStart s)"

text \<open>What \<open>readFloat\<close> returns when it succeeds: the value is \<open>mant * 10^exp\<close>, or
  \<open>mant * 2^exp\<close> for a hexadecimal mantissa; \<open>fs_n\<close> is the length of the prefix read.\<close>
record fscan =
  fs_mant :: nat
  fs_exp :: int
  fs_neg :: bool
  fs_hex :: bool
  fs_n :: nat

text \<open>The end of \<open>readFloat\<close>, once \<open>i\<close> is past the number: the exponent, and the
  check of the underscores.\<close>
definition read_float_finish ::
  "string \<Rightarrow> bool \<Rightarrow> bool \<Rightarrow> mscan \<Rightarrow> int \<Rightarrow> bool \<Rightarrow> string \<Rightarrow> fscan option" where
  "read_float_finish s neg hex st dp us rest =
     (let i = length s - length rest;
          nd = (if hex then 4 * int (ms_nd st) else int (ms_nd st))
      in if us \<and> \<not> underscore_ok (take i s) then None
         else Some \<lparr>fs_mant = ms_mant st, fs_exp = (if ms_mant st \<noteq> 0 then dp - nd else 0),
                    fs_neg = neg, fs_hex = hex, fs_n = i\<rparr>)"

text \<open>\<open>readFloat(s)\<close>; \<open>None\<close> is \<open>ok = false\<close>.\<close>
definition read_float_prefix :: "string \<Rightarrow> fscan option" where
  "read_float_prefix s =
     (if s = [] then None else
      let neg = (hd s = CHR ''-'');
          s1 = (if hd s \<in> {CHR ''+'', CHR ''-''} then tl s else s);
          hex = (2 < length s1 \<and> s1 ! 0 = CHR ''0'' \<and> lower (byte_of (s1 ! 1)) = byte_of CHR ''x'');
          (st, rest) = scan_mant (if hex then 16 else 10) mscan0 (if hex then drop 2 s1 else s1)
      in if \<not> ms_sawdigits st then None else
         let dp = (if ms_sawdot st then ms_dp st else int (ms_nd st));
             dp = (if hex then dp * 4 else dp)
         in if rest \<noteq> [] \<and> lower (byte_of (hd rest)) = byte_of (if hex then CHR ''p'' else CHR ''e'')
            then
              (let r1 = tl rest in
               if r1 = [] then None else
               let esign = (if hd r1 = CHR ''-'' then -1 else 1);
                   r2 = (if hd r1 \<in> {CHR ''+'', CHR ''-''} then tl r1 else r1)
               in if r2 = [] \<or> \<not> is_digit (hd r2) then None else
                  case scan_exp 0 (ms_underscores st) r2 of (e, us, r3) \<Rightarrow>
                    read_float_finish s neg hex st (dp + int e * esign) us r3)
            else if hex then None
            else read_float_finish s neg hex st dp (ms_underscores st) rest)"

subsection \<open>Conversion and \<open>ParseFloat\<close>\<close>

text \<open>The scanned number as a fraction \<open>N / D\<close> of naturals.\<close>
definition fscan_frac :: "fscan \<Rightarrow> nat \<times> nat" where
  "fscan_frac sc =
     (let b = (if fs_hex sc then 2 else 10 :: nat) in
      if 0 \<le> fs_exp sc then (fs_mant sc * b ^ nat (fs_exp sc), 1) else (fs_mant sc, b ^ nat (- fs_exp sc)))"

text \<open>\<open>atof64(s)\<close>: the float, the length of the prefix read, and the error.\<close>
definition atof64 :: "string \<Rightarrow> float64 \<times> nat \<times> go_error option" where
  "atof64 s =
     (case special s of
        Some (f, n) \<Rightarrow> (f, n, None)
      | None \<Rightarrow>
          (case read_float_prefix s of
             None \<Rightarrow> (zero64 False, 0, Some (syntax_error ''ParseFloat'' s))
           | Some sc \<Rightarrow>
               (case fscan_frac sc of (N, D) \<Rightarrow>
                  case round64 (fs_neg sc) N D of (f, ovf) \<Rightarrow>
                    (f, fs_n sc, if ovf then Some (range_error ''ParseFloat'' s) else None))))"

fun is_syntax_error :: "go_error \<Rightarrow> bool" where
  "is_syntax_error (NumError fn s ErrSyntax) = True"
| "is_syntax_error _ = False"

text \<open>\<open>strconv.ParseFloat(s, 64)\<close>: the whole string must be the number.\<close>
definition parse_float :: "string \<Rightarrow> float64 go_result" where
  "parse_float s =
     (case atof64 s of (f, n, err) \<Rightarrow>
        if n \<noteq> length s \<and> (err = None \<or> \<not> is_syntax_error (the err))
        then (zero64 False, Some (syntax_error ''ParseFloat'' s))
        else (f, err))"

subsection \<open>Specification of the conversion\<close>

text \<open>The exact value of the number \<open>readFloat\<close> scanned.\<close>
definition fscan_value :: "fscan \<Rightarrow> rat" where
  "fscan_value sc = (case fscan_frac sc of (N, D) \<Rightarrow> sgn_rat (fs_neg sc) * (of_nat N / of_nat D))"

text \<open>
  A literal that denotes a finite float exactly: its significand times \<open>2^e\<close> in decimal
  when \<open>e \<ge> 0\<close>, and otherwise \<open>m * 5^k\<close> followed by \<open>e-k\<close>, since
  \<open>m * 2^-k = m * 5^k * 10^-k\<close>.
\<close>
definition float_literal :: "float64 \<Rightarrow> string" where
  "float_literal f =
     (let sgn = (if f_sign f then ''-'' else []) in
      if f_mant f = 0 then sgn @ ''0''
      else if 0 \<le> f_e f then sgn @ fmt_digits (f_mant f * 2 ^ nat (f_e f)) []
      else sgn @ fmt_digits (f_mant f * 5 ^ nat (- f_e f)) [] @ ''e-'' @ fmt_digits (nat (- f_e f)) [])"

text \<open>The mantissa loop stops at a character that is not a digit, \<open>_\<close> or \<open>.\<close>.\<close>
definition stops_mant :: "string \<Rightarrow> bool" where
  "stops_mant rest \<longleftrightarrow> rest = [] \<or> (\<not> is_digit (hd rest) \<and> hd rest \<noteq> CHR ''_'' \<and> hd rest \<noteq> CHR ''.'')"

subsection \<open>The empty string\<close>

lemma parse_float_Nil: "parse_float [] = (zero64 False, Some (syntax_error ''ParseFloat'' []))"
  by (simp add: parse_float_def atof64_def special_def read_float_prefix_def)

subsection \<open>Scanning decimal literals\<close>

lemma digit_not_punct: "is_digit c \<Longrightarrow> c \<noteq> CHR ''_'' \<and> c \<noteq> CHR ''.''"
  by (auto simp: is_digit_def)

lemma scan_mant_digits:
  assumes "list_all is_digit ds" and "0 < ms_nd st" and "stops_mant rest"
  shows "scan_mant 10 st (ds @ rest) =
    (st\<lparr>ms_mant := ms_mant st * 10 ^ length ds + dec_val ds, ms_nd := ms_nd st + length ds,
        ms_sawdigits := (ms_sawdigits st \<or> ds \<noteq> [])\<rparr>, rest)"
  using assms
proof (induction ds arbitrary: st)
  case Nil
  then show ?case by (cases rest) (auto simp: stops_mant_def)
next
  case (Cons d ds)
  have d: "is_digit d" "d \<noteq> CHR ''_''" "d \<noteq> CHR ''.''" using Cons.prems(1) digit_not_punct by auto
  have "scan_mant 10 st ((d # ds) @ rest) =
        scan_mant 10 (st\<lparr>ms_sawdigits := True, ms_nd := ms_nd st + 1, ms_mant := ms_mant st * 10 + digit_val d\<rparr>) (ds @ rest)"
    using d Cons.prems(2) by simp
  also have "\<dots> = (st\<lparr>ms_mant := ms_mant st * 10 ^ length (d # ds) + dec_val (d # ds),
        ms_nd := ms_nd st + length (d # ds), ms_sawdigits := True\<rparr>, rest)"
    using Cons.IH [of "st\<lparr>ms_sawdigits := True, ms_nd := ms_nd st + 1, ms_mant := ms_mant st * 10 + digit_val d\<rparr>"]
      Cons.prems by (simp add: dec_val_Cons algebra_simps)
  finally show ?case by simp
qed

lemma scan_exp_digits:
  assumes "list_all is_digit ds" and "e * 10 ^ length ds + dec_val ds < 10000"
    and "rest = [] \<or> (\<not> is_digit (hd rest) \<and> hd rest \<noteq> CHR ''_'')"
  shows "scan_exp e us (ds @ rest) = (e * 10 ^ length ds + dec_val ds, us, rest)"
  using assms
proof (induction ds arbitrary: e)
  case Nil
  then show ?case by (cases rest) auto
next
  case (Cons d ds)
  have d: "is_digit d" "d \<noteq> CHR ''_''" using Cons.prems(1) digit_not_punct by auto
  have "e \<le> e * 10 ^ length (d # ds)" by simp
  then have "e \<le> e * 10 ^ length (d # ds) + dec_val (d # ds)" by linarith
  then have lt: "e < 10000" using Cons.prems(2) by linarith
  have "(e * 10 + digit_val d) * 10 ^ length ds + dec_val ds = e * 10 ^ length (d # ds) + dec_val (d # ds)"
    by (simp add: dec_val_Cons algebra_simps)
  then show ?case using Cons.IH [of "e * 10 + digit_val d"] Cons.prems d lt by simp
qed

lemma fmt_digits_hd: "0 < u \<Longrightarrow> hd (fmt_digits u []) \<noteq> CHR ''0''"
proof (induction u rule: less_induct)
  case (less u)
  show ?case
  proof (cases "u < 10")
    case True
    have "digit_val (char_of (48 + u)) = u" using char_digit True by blast
    moreover have "digit_val CHR ''0'' = 0" by (simp add: digit_val_def)
    ultimately have "char_of (48 + u) \<noteq> CHR ''0''" using less.prems by auto
    then show ?thesis using True by (subst fmt_digits_step) simp
  next
    case False
    then have "fmt_digits u [] = fmt_digits (u div 10) [] @ [char_of (48 + u mod 10)]"
      by (subst fmt_digits_step) (simp add: fmt_digits_acc [of _ "[_]"])
    moreover have "fmt_digits (u div 10) [] \<noteq> []" using fmt_digits_props by blast
    moreover have "hd (fmt_digits (u div 10) []) \<noteq> CHR ''0''" using less.IH [of "u div 10"] False by simp
    ultimately show ?thesis by simp
  qed
qed

lemma scan_mant_number:
  assumes "0 < u" and "stops_mant rest"
  shows "scan_mant 10 mscan0 (fmt_digits u [] @ rest) =
    (mscan0\<lparr>ms_mant := u, ms_nd := length (fmt_digits u []), ms_sawdigits := True\<rparr>, rest)"
proof -
  obtain d ds where dds: "fmt_digits u [] = d # ds" using fmt_digits_props [of u] by (cases "fmt_digits u []") auto
  have dg: "is_digit d" "list_all is_digit ds" "dec_val (d # ds) = u"
    using fmt_digits_props [of u] dds by auto
  have d: "d \<noteq> CHR ''0''" "d \<noteq> CHR ''_''" "d \<noteq> CHR ''.''"
    using fmt_digits_hd [OF assms(1)] dds digit_not_punct [OF dg(1)] by auto
  have "scan_mant 10 mscan0 ((d # ds) @ rest) =
        scan_mant 10 (mscan0\<lparr>ms_sawdigits := True, ms_nd := 1, ms_mant := digit_val d\<rparr>) (ds @ rest)"
    using d dg(1) by (simp add: mscan0_def)
  also have "\<dots> = (mscan0\<lparr>ms_mant := u, ms_nd := length (d # ds), ms_sawdigits := True\<rparr>, rest)"
    using scan_mant_digits [OF dg(2) _ assms(2)] dg(3) by (simp add: mscan0_def dec_val_Cons)
  finally show ?thesis unfolding dds .
qed

lemma stops_mant_e: "stops_mant (CHR ''e'' # r)"
  by (simp add: stops_mant_def is_digit_def)

lemma lower_e: "lower (byte_of CHR ''e'') = byte_of CHR ''e''"
  by (simp add: lower_def byte_of_def)

lemma read_float_prefix_sci:
  assumes u: "0 < u" and k: "k < 10000"
  shows "read_float_prefix ((if neg then ''-'' else []) @ fmt_digits u [] @ ''e-'' @ fmt_digits k []) =
    Some \<lparr>fs_mant = u, fs_exp = - int k, fs_neg = neg, fs_hex = False,
          fs_n = length ((if neg then ''-'' else []) @ fmt_digits u [] @ ''e-'' @ fmt_digits k [])\<rparr>"
proof -
  define D where "D = fmt_digits u []"
  define K where "K = fmt_digits k []"
  have D0: "D \<noteq> []" "hd D \<noteq> CHR ''0''" "list_all is_digit D"
    using fmt_digits_props [of u] fmt_digits_hd [OF u] by (auto simp: D_def)
  then have dg: "is_digit (hd D)" by (simp add: list_all_iff)
  then have D: "D \<noteq> []" "hd D \<noteq> CHR ''0''" "is_digit (hd D)" "hd D \<noteq> CHR ''-''" "hd D \<noteq> CHR ''+''"
    using D0 by (auto simp: is_digit_def)
  have K: "K \<noteq> []" "is_digit (hd K)" "list_all is_digit K" "dec_val K = k"
    using fmt_digits_props [of k] by (auto simp: K_def list_all_iff)
  have sm: "scan_mant 10 mscan0 (D @ ''e-'' @ K) =
      (mscan0\<lparr>ms_mant := u, ms_nd := length D, ms_sawdigits := True\<rparr>, ''e-'' @ K)"
    using scan_mant_number [OF u stops_mant_e, of "CHR ''-'' # K"] by (simp add: D_def)
  have se: "scan_exp 0 False K = (k, False, [])"
    using scan_exp_digits [of K 0 "[]" False] K k by simp
  have hx: "(D @ r) ! 0 \<noteq> CHR ''0''" for r
    using D by (cases D) auto
  show ?thesis
    unfolding D_def [symmetric] K_def [symmetric]
    using D K u sm se hx lower_e
    by (cases neg) (simp_all add: read_float_prefix_def read_float_finish_def mscan0_def Let_def)
qed

lemma fmt_digits_facts:
  assumes "0 < u"
  shows "fmt_digits u [] \<noteq> [] \<and> hd (fmt_digits u []) \<noteq> CHR ''0'' \<and> is_digit (hd (fmt_digits u []))"
proof -
  have "fmt_digits u [] \<noteq> []" "list_all is_digit (fmt_digits u [])" using fmt_digits_props by blast+
  then show ?thesis using fmt_digits_hd [OF assms] by (simp add: list_all_iff)
qed

lemma read_float_prefix_int:
  assumes u: "0 < u"
  shows "read_float_prefix ((if neg then ''-'' else []) @ fmt_digits u []) =
    Some \<lparr>fs_mant = u, fs_exp = 0, fs_neg = neg, fs_hex = False,
          fs_n = length ((if neg then ''-'' else []) @ fmt_digits u [])\<rparr>"
proof -
  define D where "D = fmt_digits u []"
  have D: "D \<noteq> []" "hd D \<noteq> CHR ''0''" "is_digit (hd D)"
    using fmt_digits_facts [OF u] by (simp_all add: D_def)
  then have D': "hd D \<noteq> CHR ''-''" "hd D \<noteq> CHR ''+''" by (auto simp: is_digit_def)
  have sm: "scan_mant 10 mscan0 D = (mscan0\<lparr>ms_mant := u, ms_nd := length D, ms_sawdigits := True\<rparr>, [])"
    using scan_mant_number [OF u, of "[]"] by (simp add: D_def stops_mant_def)
  have hx: "D ! 0 \<noteq> CHR ''0''" using D by (cases D) auto
  show ?thesis
    unfolding D_def [symmetric]
    using D D' u sm hx
    by (cases neg) (simp_all add: read_float_prefix_def read_float_finish_def mscan0_def Let_def)
qed

lemma read_float_prefix_zero:
  "read_float_prefix ((if neg then ''-'' else []) @ ''0'') =
    Some \<lparr>fs_mant = 0, fs_exp = 0, fs_neg = neg, fs_hex = False, fs_n = (if neg then 2 else 1)\<rparr>"
  by (cases neg) (simp_all add: read_float_prefix_def read_float_finish_def mscan0_def is_digit_def)

lemma special_digit:
  assumes "is_digit (hd D)" "D \<noteq> []"
  shows "special ((if neg then ''-'' else []) @ D) = None"
proof -
  have "ascii_lower (hd D) \<noteq> CHR ''i''" "hd D \<notin> {CHR ''+'', CHR ''-'', CHR ''i'', CHR ''I'', CHR ''n'', CHR ''N''}"
    using assms(1) by (auto simp: is_digit_def ascii_lower_def)
  then show ?thesis using assms(2)
    by (cases D; cases neg) (auto simp: special_def)
qed

lemma parse_float_scanned:
  assumes "special s = None" and "read_float_prefix s = Some sc" and "fs_n sc = length s"
    and "fscan_frac sc = (N, D)" and "round64 (fs_neg sc) N D = (f, False)"
  shows "parse_float s = (f, None)"
  using assms by (simp add: parse_float_def atof64_def)

subsection \<open>Decimal fractions\<close>

text \<open>The literals \<open>d...d.d...d\<close> and \<open>0.0...0d...d\<close>, as \<open>fmt\<close> prints them with the \<open>f\<close> verb.\<close>

lemma scan_mant_digits_gen:
  assumes "list_all is_digit ds" and "0 < ms_nd st"
  shows "scan_mant 10 st (ds @ rest) =
    scan_mant 10 (st\<lparr>ms_mant := ms_mant st * 10 ^ length ds + dec_val ds, ms_nd := ms_nd st + length ds,
        ms_sawdigits := (ms_sawdigits st \<or> ds \<noteq> [])\<rparr>) rest"
  using assms
proof (induction ds arbitrary: st)
  case Nil
  then show ?case by simp
next
  case (Cons d ds)
  have d: "is_digit d" "d \<noteq> CHR ''_''" "d \<noteq> CHR ''.''" using Cons.prems(1) digit_not_punct by auto
  have "scan_mant 10 st ((d # ds) @ rest) =
        scan_mant 10 (st\<lparr>ms_sawdigits := True, ms_nd := ms_nd st + 1, ms_mant := ms_mant st * 10 + digit_val d\<rparr>) (ds @ rest)"
    using d Cons.prems(2) by simp
  then show ?case
    using Cons.IH [of "st\<lparr>ms_sawdigits := True, ms_nd := ms_nd st + 1, ms_mant := ms_mant st * 10 + digit_val d\<rparr>"]
      Cons.prems by (simp add: dec_val_Cons algebra_simps)
qed

lemma read_float_prefix_point:
  assumes u: "0 < u" and ds: "list_all is_digit ds"
  shows "read_float_prefix (fmt_digits u [] @ ''.'' @ ds) =
    Some \<lparr>fs_mant = u * 10 ^ length ds + dec_val ds, fs_exp = - int (length ds), fs_neg = False,
          fs_hex = False, fs_n = length (fmt_digits u [] @ ''.'' @ ds)\<rparr>"
proof -
  define D where "D = fmt_digits u []"
  have D: "D \<noteq> []" "hd D \<noteq> CHR ''0''" "is_digit (hd D)"
    using fmt_digits_facts [OF u] by (simp_all add: D_def)
  then have D': "hd D \<noteq> CHR ''-''" "hd D \<noteq> CHR ''+''" by (auto simp: is_digit_def)
  obtain d ds0 where dd: "D = d # ds0" using D by (cases D) auto
  have dg: "is_digit d" "list_all is_digit ds0" "dec_val (d # ds0) = u"
    using fmt_digits_props [of u] dd by (auto simp: D_def)
  have d: "d \<noteq> CHR ''0''" "d \<noteq> CHR ''_''" "d \<noteq> CHR ''.''" using D dd digit_not_punct [OF dg(1)] by auto
  have s1: "scan_mant 10 mscan0 (D @ ''.'' @ ds) =
      scan_mant 10 (mscan0\<lparr>ms_sawdigits := True, ms_nd := 1, ms_mant := digit_val d\<rparr>) (ds0 @ ''.'' @ ds)"
    using d dg(1) by (simp add: dd mscan0_def)
  also have "\<dots> = scan_mant 10 (mscan0\<lparr>ms_mant := u, ms_nd := length D, ms_sawdigits := True\<rparr>) (''.'' @ ds)"
    using scan_mant_digits_gen [OF dg(2), of "mscan0\<lparr>ms_sawdigits := True, ms_nd := 1, ms_mant := digit_val d\<rparr>" "''.'' @ ds"]
      dg(3) by (simp add: mscan0_def dec_val_Cons dd)
  also have "\<dots> = scan_mant 10 (mscan0\<lparr>ms_mant := u, ms_nd := length D, ms_sawdigits := True,
      ms_sawdot := True, ms_dp := int (length D)\<rparr>) ds"
    by (simp add: mscan0_def)
  also have "\<dots> = (mscan0\<lparr>ms_mant := u * 10 ^ length ds + dec_val ds, ms_nd := length D + length ds,
      ms_sawdigits := True, ms_sawdot := True, ms_dp := int (length D)\<rparr>, [])"
    using scan_mant_digits_gen [OF ds, of _ "[]"] D by (simp add: mscan0_def)
  finally have sm: "scan_mant 10 mscan0 (D @ ''.'' @ ds) = \<dots>" .
  have hx: "(D @ r) ! 0 \<noteq> CHR ''0''" for r using D by (cases D) auto
  show ?thesis
    unfolding D_def [symmetric]
    using D D' u sm hx
    by (simp add: read_float_prefix_def read_float_finish_def mscan0_def Let_def)
qed

lemma scan_mant_zeros:
  assumes "ms_nd st = 0"
  shows "scan_mant 10 st (replicate k CHR ''0'' @ rest) =
    scan_mant 10 (st\<lparr>ms_sawdigits := (ms_sawdigits st \<or> 0 < k), ms_dp := ms_dp st - int k\<rparr>) rest"
  using assms
proof (induction k arbitrary: st)
  case 0
  then show ?case by simp
next
  case (Suc k)
  then show ?case by (simp add: is_digit_def algebra_simps)
qed

lemma read_float_prefix_small:
  assumes u: "0 < u"
  shows "read_float_prefix (''0.'' @ replicate k CHR ''0'' @ fmt_digits u []) =
    Some \<lparr>fs_mant = u, fs_exp = - int (k + length (fmt_digits u [])), fs_neg = False,
          fs_hex = False, fs_n = k + 2 + length (fmt_digits u [])\<rparr>"
proof -
  define D where "D = fmt_digits u []"
  have D: "D \<noteq> []" "hd D \<noteq> CHR ''0''" "is_digit (hd D)"
    using fmt_digits_facts [OF u] by (simp_all add: D_def)
  obtain d ds0 where dd: "D = d # ds0" using D by (cases D) auto
  have dg: "is_digit d" "list_all is_digit ds0" "dec_val (d # ds0) = u"
    using fmt_digits_props [of u] dd by (auto simp: D_def)
  have d: "d \<noteq> CHR ''0''" "d \<noteq> CHR ''_''" "d \<noteq> CHR ''.''" using D dd digit_not_punct [OF dg(1)] by auto
  have "scan_mant 10 mscan0 (''0.'' @ replicate k CHR ''0'' @ D) =
      scan_mant 10 (mscan0\<lparr>ms_sawdigits := True, ms_sawdot := True, ms_dp := 0\<rparr>) (replicate k CHR ''0'' @ D)"
    by (simp add: mscan0_def is_digit_def)
  also have "\<dots> = scan_mant 10 (mscan0\<lparr>ms_sawdigits := True, ms_sawdot := True, ms_dp := - int k\<rparr>) D"
    by (simp add: scan_mant_zeros mscan0_def)
  also have "\<dots> = scan_mant 10 (mscan0\<lparr>ms_sawdigits := True, ms_sawdot := True, ms_dp := - int k,
      ms_nd := 1, ms_mant := digit_val d\<rparr>) ds0"
    using d dg(1) by (simp add: dd mscan0_def)
  also have "\<dots> = (mscan0\<lparr>ms_sawdigits := True, ms_sawdot := True, ms_dp := - int k,
      ms_nd := length D, ms_mant := u\<rparr>, [])"
    using scan_mant_digits_gen [OF dg(2), of _ "[]"] dg(3) by (simp add: mscan0_def dec_val_Cons dd)
  finally have sm: "scan_mant 10 mscan0 (''0.'' @ replicate k CHR ''0'' @ D) = \<dots>" .
  show ?thesis
    unfolding D_def [symmetric]
    using sm u by (simp add: read_float_prefix_def read_float_finish_def Let_def lower_def byte_of_def mscan0_def)
qed

lemma parse_float_accepted:
  assumes "special s = None" and "read_float_prefix s = Some sc" and "fs_n sc = length s"
  shows "parse_float s = (case fscan_frac sc of (N, D) \<Rightarrow> case round64 (fs_neg sc) N D of (f, ovf) \<Rightarrow>
           (f, if ovf then Some (range_error ''ParseFloat'' s) else None))"
  using assms by (simp add: parse_float_def atof64_def split: prod.split)

subsection \<open>The exact literal of a float\<close>

lemma f_zero: "f_mant f = 0 \<Longrightarrow> f = zero64 (f_sign f)"
  by (cases f) (simp add: zero64_def f_mant_def unat_eq_0 split: if_splits)

theorem parse_float_literal:
  assumes fin: "is_finite64 f"
  shows "parse_float (float_literal f) = (f, None)"
proof -
  define sgn where "sgn = (if f_sign f then ''-'' else [])"
  define m e where "m = f_mant f" and "e = f_e f"
  have eb: "-1074 \<le> e" using f_mant_bounds [of f] by (simp add: e_def)
  show ?thesis
  proof (cases "m = 0")
    case True
    have lit: "float_literal f = sgn @ ''0''" using True by (simp add: float_literal_def sgn_def m_def)
    have sp: "special (sgn @ ''0'') = None"
      using special_digit [of "''0''" "f_sign f"] by (simp add: sgn_def is_digit_def)
    have r: "round64 (f_sign f) 0 n = (f, False)" for n
      using f_zero [of f] True by (simp add: round64_def m_def)
    have ff: "fscan_frac \<lparr>fs_mant = 0, fs_exp = 0, fs_neg = f_sign f, fs_hex = False,
        fs_n = (if f_sign f then 2 else 1)\<rparr> = (0, 1)" by (simp add: fscan_frac_def)
    have n: "fs_n \<lparr>fs_mant = 0, fs_exp = 0, fs_neg = f_sign f, fs_hex = False,
        fs_n = (if f_sign f then 2 else 1)\<rparr> = length (sgn @ ''0'')" by (simp add: sgn_def)
    show ?thesis unfolding lit
      using parse_float_scanned [OF sp read_float_prefix_zero [of "f_sign f", folded sgn_def] n ff] r by simp
  next
    case False
    show ?thesis
    proof (cases "0 \<le> e")
      case True
      define u where "u = m * 2 ^ nat e"
      have u: "0 < u" using False by (simp add: u_def)
      have lit: "float_literal f = sgn @ fmt_digits u []"
        using False True by (simp add: float_literal_def sgn_def u_def m_def e_def Let_def)
      have x: "(of_nat u / of_nat 1 :: rat) = of_nat (f_mant f) * 2 powi f_e f"
        using True by (simp add: u_def m_def e_def power_int_def)
      have sp: "special (sgn @ fmt_digits u []) = None"
        using special_digit [of "fmt_digits u []" "f_sign f"] fmt_digits_facts [OF u] by (simp add: sgn_def)
      have r: "round64 (f_sign f) u (Suc 0) = (f, False)" using round64_exact [OF fin _ x] by simp
      have ff: "fscan_frac \<lparr>fs_mant = u, fs_exp = 0, fs_neg = f_sign f, fs_hex = False,
          fs_n = length (sgn @ fmt_digits u [])\<rparr> = (u, 1)" by (simp add: fscan_frac_def)
      show ?thesis unfolding lit
        by (rule parse_float_scanned [OF sp read_float_prefix_int [OF u, of "f_sign f", folded sgn_def] _ ff])
           (simp_all add: r)
    next
      case neg: False
      define k where "k = nat (- e)"
      define u where "u = m * 5 ^ k"
      have u: "0 < u" using False by (simp add: u_def)
      have k: "k < 10000" "- int k = e" using eb neg by (simp_all add: k_def)
      have lit: "float_literal f = sgn @ fmt_digits u [] @ ''e-'' @ fmt_digits k []"
        using False neg by (simp add: float_literal_def sgn_def u_def m_def e_def k_def Let_def)
      have "(of_nat u / of_nat (10 ^ k) :: rat) = of_nat m / 2 ^ k"
        by (simp add: u_def power_mult_distrib [symmetric] field_simps)
      also have "\<dots> = of_nat (f_mant f) * 2 powi f_e f"
      proof -
        have "(2 :: rat) powi e = inverse (2 ^ k)" unfolding k(2) [symmetric] by (simp add: power_int_minus)
        then show ?thesis by (simp add: m_def e_def [symmetric] divide_inverse)
      qed
      finally have x: "(of_nat u / of_nat (10 ^ k) :: rat) = of_nat (f_mant f) * 2 powi f_e f" .
      have sp: "special (sgn @ fmt_digits u [] @ ''e-'' @ fmt_digits k []) = None"
        using special_digit [of "fmt_digits u [] @ ''e-'' @ fmt_digits k []" "f_sign f"] fmt_digits_facts [OF u]
        by (simp add: sgn_def)
      have r: "round64 (f_sign f) u (10 ^ k) = (f, False)" by (rule round64_exact [OF fin _ x]) simp
      have ff: "fscan_frac \<lparr>fs_mant = u, fs_exp = - int k, fs_neg = f_sign f, fs_hex = False,
          fs_n = length (sgn @ fmt_digits u [] @ ''e-'' @ fmt_digits k [])\<rparr> = (u, 10 ^ k)"
        using False neg k by (simp add: fscan_frac_def)
      show ?thesis unfolding lit
        by (rule parse_float_scanned [OF sp read_float_prefix_sci [OF u k(1), of "f_sign f", folded sgn_def] _ ff])
           (simp_all add: r)
    qed
  qed
qed

subsection \<open>ParseFloat returns the nearest float\<close>

lemma fscan_frac_pos: "fscan_frac sc = (N, D) \<Longrightarrow> 0 < D"
  by (auto simp: fscan_frac_def Let_def split: if_splits)

lemma parse_float_round:
  assumes "special s = None" and "read_float_prefix s = Some sc" and "parse_float s = (f, None)"
  shows "case fscan_frac sc of (N, D) \<Rightarrow> round64 (fs_neg sc) N D = (f, False)"
  using assms by (auto simp: parse_float_def atof64_def split: prod.splits if_splits)

text \<open>ParseFloat refines IEEE-754 round-to-nearest: when it accepts a literal without overflow, its result is a finite float and no finite float is nearer to the literal's exact value.\<close>
theorem parse_float_nearest:
  assumes "special s = None" and "read_float_prefix s = Some sc" and "parse_float s = (f, None)"
  shows "is_finite64 f \<and>
    (\<forall>g. is_finite64 g \<longrightarrow> \<bar>f_value f - fscan_value sc\<bar> \<le> \<bar>f_value g - fscan_value sc\<bar>)"
proof -
  obtain N D where nd: "fscan_frac sc = (N, D)" by (cases "fscan_frac sc")
  show ?thesis
    using round64_nearest [OF fscan_frac_pos [OF nd]] parse_float_round [OF assms] nd
    by (simp add: fscan_value_def)
qed


lemma parse_float_kind: "pred_option (\<lambda>x. kind_of x = ParseError) (snd (parse_float s))"
proof -
  obtain f n e where a: "atof64 s = (f, n, e)" by (cases "atof64 s") auto
  have "pred_option (\<lambda>x. kind_of x = ParseError) e"
    using a by (auto simp: atof64_def split: option.splits prod.splits if_splits)
  then show ?thesis by (simp add: parse_float_def a)
qed

subsection \<open>Evaluation\<close>

lemma parse_float_1_1:
  "parse_float ''1.1'' = (\<lparr>f_sign = False, f_exp = 1023, f_frac = 0x199999999999A\<rparr>, None)"
proof -
  have sp: "special ''1.1'' = None" by code_simp
  have rp: "read_float_prefix ''1.1'' = Some \<lparr>fs_mant = 11, fs_exp = -1, fs_neg = False, fs_hex = False, fs_n = 3\<rparr>"
    by code_simp
  have r: "round64 False 11 10 = (\<lparr>f_sign = False, f_exp = 1023, f_frac = 0x199999999999A\<rparr>, False)"
    by (simp add: round64_eval)
  show ?thesis using parse_float_accepted [OF sp rp] r by (simp add: fscan_frac_def)
qed

end
