(* ===== verification/Read_Float.thy ===== *)
theory Read_Float
  imports Input Atof
begin

text \<open>
  \<open>ReadFloat\<close> with the parser it calls: the function \<open>read_float\<close> of \<open>Input\<close>, whose
  parser is a parameter there, applied to \<open>strconv.ParseFloat(s, 64)\<close> of \<open>Atof\<close> and
  the zero \<open>0\<close> (positive zero) it returns on an error.
\<close>

text \<open>\<open>ReadFloat(prompt)\<close>.\<close>
definition read_float64 :: "string \<Rightarrow> world \<Rightarrow> float64 go_result \<times> world" where
  "read_float64 prompt w = read_float parse_float (zero64 False) prompt w"

lemma read_float64_one_chunk:
  assumes "CHR ''\<newline>'' \<notin> set l" and "length (l @ ''\<newline>'' @ extra) \<le> default_buf_size"
  shows "read_float64 p \<lparr>w_stdin = Chunk (l @ ''\<newline>'' @ extra) # rest, w_stdout = out\<rparr> =
     (let r = parse_float (trim_space (l @ ''\<newline>''))
      in ((if snd r = None then fst r else zero64 False, snd r), \<lparr>w_stdin = rest, w_stdout = out @ p\<rparr>))"
  using read_string_one_chunk [OF assms, of p rest out]
  by (simp add: read_float64_def read_float_def Let_def split: prod.split)

lemma trim_space_plain_line:
  assumes "list_all (\<lambda>x. \<not> ascii_space x \<and> is_ascii x) t"
  shows "trim_space (t @ ''\<newline>'') = t"
proof -
  have "list_all is_ascii (t @ ''\<newline>'')"
    using assms by (simp add: list_all_iff is_ascii_def rune_self_def)
  then have "trim_space (t @ ''\<newline>'') = strip_ascii_space (t @ [CHR ''\<newline>''])"
    by (simp add: trim_space_ascii)
  also have "\<dots> = t"
    using assms by (intro strip_ascii_space_snoc) (simp_all add: list_all_iff ascii_space_iff)
  finally show ?thesis .
qed

lemma plain_decimal_line:
  assumes "\<forall>c \<in> set t. is_digit c \<or> c = CHR ''.''"
  shows "CHR ''\<newline>'' \<notin> set t \<and> trim_space (t @ ''\<newline>'') = t"
proof -
  have "list_all (\<lambda>c. \<not> ascii_space c \<and> is_ascii c) t" "CHR ''\<newline>'' \<notin> set t"
    using assms by (auto simp: list_all_iff is_digit_def ascii_space_iff is_ascii_def rune_self_def)
  then show ?thesis using trim_space_plain_line by blast
qed

lemma float_literal_chars:
  "list_all (\<lambda>x. \<not> ascii_space x \<and> is_ascii x \<and> x \<noteq> CHR ''\<newline>'') (float_literal f)"
proof -
  have c: "\<not> ascii_space c \<and> is_ascii c \<and> c \<noteq> CHR ''\<newline>''" if "c \<in> {CHR ''-'', CHR ''e'', CHR ''0''}" for c
    using that by (auto simp: ascii_space_iff is_ascii_def rune_self_def)
  have "list_all (\<lambda>x. \<not> ascii_space x \<and> is_ascii x \<and> x \<noteq> CHR ''\<newline>'') (fmt_digits u [])" for u
    using fmt_digits_props [of u] nl_not_digit by (auto simp: list_all_iff digit_not_space)
  then show ?thesis using c by (simp add: float_literal_def Let_def)
qed

lemma f_e_le: "is_finite64 f \<Longrightarrow> f_e f \<le> 971"
proof -
  assume "is_finite64 f"
  then have "int (unat (f_exp f)) \<le> 2046" using f_exp_le [of f] by linarith
  then show ?thesis by (simp add: f_e_def)
qed

lemma mult_lt_pow10: "(m :: nat) < 10 ^ a \<Longrightarrow> c \<le> 10 ^ b \<Longrightarrow> m * c < 10 ^ (a + b)"
proof -
  assume m: "m < 10 ^ a" and c: "c \<le> 10 ^ b"
  have "m * c \<le> m * 10 ^ b" using c by simp
  also have "\<dots> < 10 ^ a * 10 ^ b" using m by simp
  finally show ?thesis by (simp add: power_add)
qed

lemma pow_le_pow10: "(k :: nat) \<le> 10 \<Longrightarrow> k ^ n \<le> 10 ^ n"
  by (intro power_mono) auto

lemma length_float_literal:
  assumes "is_finite64 f"
  shows "length (float_literal f) \<le> 1140"
proof -
  have m: "f_mant f < 10 ^ 53"
    using f_mant_bounds [of f, THEN conjunct1] pow_le_pow10 [of 2 53] by (rule less_le_trans) simp
  have e: "-1074 \<le> f_e f" "f_e f \<le> 971" using f_mant_bounds [of f] f_e_le [OF assms] by simp_all
  have len: "length (fmt_digits u []) \<le> k" if "u < 10 ^ k" "0 < k" for u k
    using length_fmt_digits that by blast
  show ?thesis
  proof (cases "f_mant f = 0 \<or> 0 \<le> f_e f")
    case True
    have "(2 :: nat) ^ nat (f_e f) \<le> 2 ^ 971" using e(2) by (intro power_increasing) auto
    also have "(2 :: nat) ^ 971 \<le> 10 ^ 971" by (rule pow_le_pow10) simp
    finally have "f_mant f * 2 ^ nat (f_e f) < 10 ^ (53 + 971)" using m by (intro mult_lt_pow10)
    then have "length (fmt_digits (f_mant f * 2 ^ nat (f_e f)) []) \<le> 53 + 971" by (rule len) simp
    then show ?thesis using True by (auto simp: float_literal_def Let_def)
  next
    case False
    define k where "k = nat (- f_e f)"
    have k: "k \<le> 1074" "0 < k" using e False by (simp_all add: k_def)
    have "(5 :: nat) ^ k \<le> 5 ^ 1074" using k by (intro power_increasing) auto
    also have "(5 :: nat) ^ 1074 \<le> 10 ^ 1074" by (rule pow_le_pow10) simp
    finally have "f_mant f * 5 ^ k < 10 ^ (53 + 1074)" using m by (intro mult_lt_pow10)
    then have l1: "length (fmt_digits (f_mant f * 5 ^ k) []) \<le> 53 + 1074" by (rule len) simp
    have "k < 10 ^ 4" using k by simp
    then have l2: "length (fmt_digits k []) \<le> 4" by (rule len) simp
    show ?thesis using False l1 l2 by (simp add: float_literal_def Let_def k_def)
  qed
qed

text \<open>C19: for every finite float64 f (signed zeros and subnormals included), ReadFloat on a line holding the exact decimal literal of f returns f, bit for bit, with no error, and consumes the line.\<close>
theorem read_float_literal:
  assumes "is_finite64 f"
  shows "read_float64 p \<lparr>w_stdin = Chunk (float_literal f @ ''\<newline>'') # rest, w_stdout = out\<rparr> =
           ((f, None), \<lparr>w_stdin = rest, w_stdout = out @ p\<rparr>)"
proof -
  note ch = float_literal_chars [of f]
  have nl: "CHR ''\<newline>'' \<notin> set (float_literal f)" using ch by (auto simp: list_all_iff)
  have len: "length (float_literal f @ ''\<newline>'' @ []) \<le> default_buf_size"
    using length_float_literal [OF assms] by (simp add: default_buf_size_def)
  have tr: "trim_space (float_literal f @ ''\<newline>'') = float_literal f"
    using ch by (intro trim_space_plain_line) (simp add: list_all_iff)
  show ?thesis
    using read_float64_one_chunk [OF nl len, of p rest out] parse_float_literal [OF assms] tr by simp
qed


text \<open>C20: ReadFloat refines IEEE-754 round-to-nearest on decimal literals: when one read delivers a line d...d.d...d (an integer part without leading zeros, a point, any digits) and ReadFloat succeeds, its result is a finite float64 and no finite float64 is nearer to the exact decimal value of the text.\<close>
theorem read_float_decimal_nearest:
  assumes u: "0 < u" and ds: "list_all is_digit ds"
    and len: "length (fmt_digits u [] @ ''.'' @ ds @ ''\<newline>'') \<le> default_buf_size"
    and ok: "fst (read_float64 p \<lparr>w_stdin = Chunk (fmt_digits u [] @ ''.'' @ ds @ ''\<newline>'') # rest,
                                   w_stdout = out\<rparr>) = (f, None)"
  shows "is_finite64 f \<and>
    (\<forall>g. is_finite64 g \<longrightarrow>
       \<bar>f_value f - (of_nat u + of_nat (dec_val ds) / 10 ^ length ds)\<bar>
         \<le> \<bar>f_value g - (of_nat u + of_nat (dec_val ds) / 10 ^ length ds)\<bar>)"
proof -
  define t where "t = fmt_digits u [] @ ''.'' @ ds"
  have "\<forall>c \<in> set t. is_digit c \<or> c = CHR ''.''"
    using fmt_digits_props [of u] ds by (auto simp: t_def list_all_iff)
  then have nl: "CHR ''\<newline>'' \<notin> set t" and tr: "trim_space (t @ ''\<newline>'') = t"
    using plain_decimal_line by blast+
  have len': "length (t @ ''\<newline>'' @ []) \<le> default_buf_size" using len by (simp add: t_def)
  have "fst (read_float64 p \<lparr>w_stdin = Chunk (t @ ''\<newline>'' @ []) # rest, w_stdout = out\<rparr>) = (f, None)"
    using ok by (simp add: t_def)
  then have "parse_float t = (f, None)"
    using read_float64_one_chunk [OF nl len', of p rest out]
    by (cases "parse_float t") (simp add: tr Let_def split: if_splits)
  moreover have sp: "special t = None"
    using special_digit [of t False] fmt_digits_facts [OF u] by (simp add: t_def)
  moreover note rp = read_float_prefix_point [OF u ds, folded t_def]
  ultimately have "is_finite64 f \<and> (\<forall>g. is_finite64 g \<longrightarrow>
      \<bar>f_value f - fscan_value \<lparr>fs_mant = u * 10 ^ length ds + dec_val ds, fs_exp = - int (length ds),
        fs_neg = False, fs_hex = False, fs_n = length t\<rparr>\<bar> \<le>
      \<bar>f_value g - fscan_value \<lparr>fs_mant = u * 10 ^ length ds + dec_val ds, fs_exp = - int (length ds),
        fs_neg = False, fs_hex = False, fs_n = length t\<rparr>\<bar>)"
    using parse_float_nearest by blast
  moreover have "fscan_value \<lparr>fs_mant = u * 10 ^ length ds + dec_val ds, fs_exp = - int (length ds),
        fs_neg = False, fs_hex = False, fs_n = length t\<rparr> = of_nat u + of_nat (dec_val ds) / 10 ^ length ds"
    by (simp add: fscan_value_def fscan_frac_def sgn_rat_def add_divide_distrib)
  ultimately show ?thesis by simp
qed

subsection \<open>Instances\<close>

theorem read_float_literal_witness:
  "read_float64 [] \<lparr>w_stdin = [Chunk (float_literal \<lparr>f_sign = True, f_exp = 1023, f_frac = 0x8000000000000\<rparr> @ ''\<newline>'')],
      w_stdout = []\<rparr> =
   ((\<lparr>f_sign = True, f_exp = 1023, f_frac = 0x8000000000000\<rparr>, None), \<lparr>w_stdin = [], w_stdout = []\<rparr>)"
  using read_float_literal [of "\<lparr>f_sign = True, f_exp = 1023, f_frac = 0x8000000000000\<rparr>" "[]" "[]" "[]"]
  by (simp add: is_finite64_def)


theorem read_float_decimal_nearest_witness:
  "is_finite64 \<lparr>f_sign = False, f_exp = 1023, f_frac = 0x199999999999A\<rparr> \<and>
   \<bar>f_value \<lparr>f_sign = False, f_exp = 1023, f_frac = 0x199999999999A\<rparr> - 11 / 10\<bar> \<le>
   \<bar>f_value \<lparr>f_sign = False, f_exp = 1023, f_frac = 0x1999999999999\<rparr> - 11 / 10\<bar>"
proof -
  have f1: "fmt_digits 1 [] = ''1''" by (simp add: fmt_digits_step char_of_def bit_0)
  have ds: "list_all is_digit ''1''" by (simp add: is_digit_def)
  have len: "length (fmt_digits 1 [] @ ''.'' @ ''1'' @ ''\<newline>'') \<le> default_buf_size"
    unfolding f1 by (simp add: default_buf_size_def)
  have nl: "CHR ''\<newline>'' \<notin> set ''1.1''" by simp
  have len': "length (''1.1'' @ ''\<newline>'' @ []) \<le> default_buf_size" by (simp add: default_buf_size_def)
  have tr: "trim_space (''1.1'' @ ''\<newline>'') = ''1.1''"
    using plain_decimal_line [of "''1.1''"] by (simp add: is_digit_def)
  have ok: "fst (read_float64 [] \<lparr>w_stdin = Chunk (fmt_digits 1 [] @ ''.'' @ ''1'' @ ''\<newline>'') # [],
      w_stdout = []\<rparr>) = (\<lparr>f_sign = False, f_exp = 1023, f_frac = 0x199999999999A\<rparr>, None)"
  proof -
    have t: "trim_space ''1.1\<newline>'' = ''1.1''" using tr by simp
    show ?thesis using read_float64_one_chunk [OF nl len', of "[]" "[]" "[]"] unfolding f1
      by (simp add: t parse_float_1_1 Let_def)
  qed
  have fin: "is_finite64 \<lparr>f_sign = False, f_exp = 1023, f_frac = 0x1999999999999\<rparr>" by (simp add: is_finite64_def)
  have v: "(of_nat 1 + of_nat (dec_val ''1'') / 10 ^ length ''1'' :: rat) = 11 / 10"
    by (simp add: dec_val_def digit_val_def)
  show ?thesis using read_float_decimal_nearest [OF _ ds len ok] fin unfolding v by simp
qed

end
