(* ===== verification/Input_Test.thy ===== *)
theory Input_Test
  imports Read_Float
begin

text \<open>
  The package's tests (\<open>src/input/input_test.go\<close>). \<open>TestMain\<close> replaces
  \<open>os.Stdin\<close> with the read end of a pipe; \<open>writeToStdIO\<close> writes one test input and a
  newline to the write end, which the next read returns as one chunk. Each test
  function runs its table in order on the same world; it passes when no case calls
  \<open>t.Error\<close>, \<open>t.Errorf\<close> or \<open>t.Fatalf\<close>. The messages the tests print themselves
  (\<open>fmt.Printf\<close>) are not part of the model's output. \<open>TestReadFloat\<close> runs
  \<open>ReadFloat\<close> with the parser of \<open>Atof\<close>; its expected values are Go constants, rounded
  to \<open>float64\<close> as the language specifies, and its two generated inputs are the decimal
  texts \<open>strconv.FormatFloat\<close> and \<open>fmt.Sprintf\<close> print for the extreme floats.
\<close>

text \<open>\<open>writeToStdIO(testData)\<close>: one \<open>write(2)\<close> of \<open>testData + "\n"\<close> to the pipe.\<close>
definition write_to_stdio :: "string \<Rightarrow> world \<Rightarrow> world" where
  "write_to_stdio test_data w = w\<lparr>w_stdin := w_stdin w @ [Chunk (test_data @ ''\<newline>'')]\<rparr>"

text \<open>The world after \<open>setup()\<close>: an empty pipe as standard input, \<open>SETUP\<close> printed.\<close>
definition test_world :: world where
  "test_world = \<lparr>w_stdin = [], w_stdout = ''SETUP\<newline>''\<rparr>"

subsection \<open>\<open>TestReadInt\<close>\<close>

record int_test_case =
  itc_input :: string
  itc_exp_value :: "64 word"
  itc_exp_error :: bool

text \<open>\<open>math.MinInt64\<close> and \<open>math.MaxInt64\<close> as Go \<open>int\<close> values.\<close>
definition min_int64 :: "64 word" where "min_int64 = word_of_int (- (2 ^ 63))"
definition max_int64 :: "64 word" where "max_int64 = word_of_int (2 ^ 63 - 1)"

definition int_test_inputs :: "int_test_case list" where
  "int_test_inputs =
     [\<lparr>itc_input = ''0'', itc_exp_value = 0, itc_exp_error = False\<rparr>,
      \<lparr>itc_input = ''1'', itc_exp_value = 1, itc_exp_error = False\<rparr>,
      \<lparr>itc_input = ''10000000'', itc_exp_value = 10000000, itc_exp_error = False\<rparr>,
      \<lparr>itc_input = format_int min_int64, itc_exp_value = min_int64, itc_exp_error = False\<rparr>,
      \<lparr>itc_input = format_int max_int64, itc_exp_value = max_int64, itc_exp_error = False\<rparr>,
      \<lparr>itc_input = ''1.5'', itc_exp_value = 0, itc_exp_error = True\<rparr>,
      \<lparr>itc_input = ''alpha'', itc_exp_value = 0, itc_exp_error = True\<rparr>]"

text \<open>The checks of one iteration: \<open>True\<close> when the case reports no failure.\<close>
definition int_case_ok :: "int_test_case \<Rightarrow> 64 word go_result \<Rightarrow> bool" where
  "int_case_ok test r =
     (case r of (getint, err) \<Rightarrow>
        if itc_exp_error test \<and> err \<noteq> None then True
        else if \<not> itc_exp_error test \<and> err \<noteq> None then False
        else getint = itc_exp_value test)"

fun test_read_int_loop :: "int_test_case list \<Rightarrow> world \<Rightarrow> bool \<times> world" where
  "test_read_int_loop [] w = (True, w)"
| "test_read_int_loop (test # tests) w =
     (let w = write_to_stdio (itc_input test) w;
          (r, w) = read_int (''read test int ('' @ itc_input test @ '')\<newline>'') w;
          (ok, w) = test_read_int_loop tests w
      in (int_case_ok test r \<and> ok, w))"

definition test_read_int :: "world \<Rightarrow> bool \<times> world" where
  "test_read_int w = test_read_int_loop int_test_inputs w"

subsection \<open>\<open>TestReadFloat\<close>\<close>

record float_test_case =
  ftc_input :: string
  ftc_exp_value :: float64
  ftc_exp_error :: bool

text \<open>\<open>math.MaxFloat64\<close>, \<open>(2^53 - 1) * 2^971\<close>, and \<open>math.SmallestNonzeroFloat64\<close>, \<open>2^-1074\<close>.\<close>
definition max_float64 :: float64 where
  "max_float64 = \<lparr>f_sign = False, f_exp = 2046, f_frac = 0xFFFFFFFFFFFFF\<rparr>"

definition smallest_nonzero_float64 :: float64 where
  "smallest_nonzero_float64 = \<lparr>f_sign = False, f_exp = 0, f_frac = 1\<rparr>"

text \<open>\<open>strconv.FormatFloat(math.SmallestNonzeroFloat64, 'f', -1, 64)\<close>: the shortest decimal
  that reads back as the float, \<open>5e-324\<close>, without an exponent.\<close>
definition smallest_nonzero_text :: string where
  "smallest_nonzero_text = ''0.'' @ replicate 323 CHR ''0'' @ ''5''"

text \<open>\<open>fmt.Sprintf("%f", math.MaxFloat64)\<close>: the exact integer value and six decimals.\<close>
definition max_float_text :: string where
  "max_float_text = fmt_digits ((2 ^ 53 - 1) * 2 ^ 971) [] @ ''.000000''"

text \<open>The expected values are the \<open>float64\<close> constants the Go compiler makes of the
  literals \<open>0\<close>, \<open>1.0\<close>, \<open>1.5\<close> and \<open>11111111.22222222\<close>, written as their IEEE-754 bits
  (\<open>11111111.22222222\<close> is \<open>0x41653158E71C71C6\<close>).\<close>
definition float_test_inputs :: "float_test_case list" where
  "float_test_inputs =
     [\<lparr>ftc_input = ''0.0'', ftc_exp_value = zero64 False, ftc_exp_error = False\<rparr>,
      \<lparr>ftc_input = ''1'', ftc_exp_value = \<lparr>f_sign = False, f_exp = 1023, f_frac = 0\<rparr>, ftc_exp_error = False\<rparr>,
      \<lparr>ftc_input = ''1.5'', ftc_exp_value = \<lparr>f_sign = False, f_exp = 1023, f_frac = 0x8000000000000\<rparr>, ftc_exp_error = False\<rparr>,
      \<lparr>ftc_input = ''11111111.22222222'', ftc_exp_value = \<lparr>f_sign = False, f_exp = 1046, f_frac = 0x53158E71C71C6\<rparr>,
         ftc_exp_error = False\<rparr>,
      \<lparr>ftc_input = smallest_nonzero_text, ftc_exp_value = smallest_nonzero_float64, ftc_exp_error = False\<rparr>,
      \<lparr>ftc_input = max_float_text, ftc_exp_value = max_float64, ftc_exp_error = False\<rparr>,
      \<lparr>ftc_input = ''alpha'', ftc_exp_value = zero64 False, ftc_exp_error = True\<rparr>]"

text \<open>The checks of one iteration; \<open>getfloat != test.expValue\<close> is the float comparison.\<close>
definition float_case_ok :: "float_test_case \<Rightarrow> float64 go_result \<Rightarrow> bool" where
  "float_case_ok test r =
     (case r of (getfloat, err) \<Rightarrow>
        if ftc_exp_error test \<and> err \<noteq> None then True
        else if \<not> ftc_exp_error test \<and> err \<noteq> None then False
        else float_eq getfloat (ftc_exp_value test))"

fun test_read_float_loop :: "float_test_case list \<Rightarrow> world \<Rightarrow> bool \<times> world" where
  "test_read_float_loop [] w = (True, w)"
| "test_read_float_loop (test # tests) w =
     (let w = write_to_stdio (ftc_input test) w;
          (r, w) = read_float64 (''read test float ('' @ ftc_input test @ '')\<newline>'') w;
          (ok, w) = test_read_float_loop tests w
      in (float_case_ok test r \<and> ok, w))"

definition test_read_float :: "world \<Rightarrow> bool \<times> world" where
  "test_read_float w = test_read_float_loop float_test_inputs w"

subsection \<open>\<open>TestReadString\<close>\<close>

text \<open>The inputs, as the UTF-8 bytes of the Go source's literals.\<close>
definition string_test_inputs :: "string list" where
  "string_test_inputs =
     [''100'', ''This is test input'', ''abcdef'',
      [CHR 0xC2, CHR 0xB1] @ ''!@#$%^&*()_+'',
      [CHR 0xC3, CHR 0xA0, CHR 0xC3, CHR 0xA4, CHR 0xC3, CHR 0xA6, CHR 0xC4, CHR 0x99, CHR 0xC5, CHR 0xAB, CHR 0xC4, CHR 0xAF],
      ''aaa'' @ [CHR 0x09] @ ''bbb'']"

definition string_case_ok :: "string \<Rightarrow> string go_result \<Rightarrow> bool" where
  "string_case_ok input r = (case r of (getstr, err) \<Rightarrow> err = None \<and> getstr = input)"

fun test_read_string_loop :: "string list \<Rightarrow> world \<Rightarrow> bool \<times> world" where
  "test_read_string_loop [] w = (True, w)"
| "test_read_string_loop (input # tests) w =
     (let w = write_to_stdio input w;
          (r, w) = read_string (''read test string ('' @ input @ '')\<newline>'') w
      in if snd r \<noteq> None then (False, w)
         else (let (ok, w) = test_read_string_loop tests w in (string_case_ok input r \<and> ok, w)))"

definition test_read_string :: "world \<Rightarrow> bool \<times> world" where
  "test_read_string w = test_read_string_loop string_test_inputs w"

subsection \<open>\<open>TestReadBool\<close> and \<open>TestReadBoolWithYN\<close>\<close>

record bool_test_case =
  btc_input :: string
  btc_exp_value :: bool
  btc_exp_error :: bool

definition bool_case :: "string \<Rightarrow> bool \<Rightarrow> bool \<Rightarrow> bool_test_case" where
  "bool_case i v e = \<lparr>btc_input = i, btc_exp_value = v, btc_exp_error = e\<rparr>"

definition bool_test_inputs :: "bool_test_case list" where
  "bool_test_inputs =
     [bool_case ''1'' True False, bool_case ''T'' True False, bool_case ''True'' True False,
      bool_case ''true'' True False, bool_case ''TRUE'' True False,
      bool_case ''0'' False False, bool_case ''F'' False False, bool_case ''False'' False False,
      bool_case ''false'' False False, bool_case ''FALSE'' False False,
      bool_case ''Yes'' False True, bool_case ''YES'' False True, bool_case ''Y'' False True,
      bool_case ''No'' False True, bool_case ''NO'' False True, bool_case ''N'' False True]"

definition bool_yn_test_inputs :: "bool_test_case list" where
  "bool_yn_test_inputs =
     [bool_case ''1'' True False, bool_case ''T'' True False, bool_case ''True'' True False,
      bool_case ''true'' True False, bool_case ''TRUE'' True False,
      bool_case ''0'' False False, bool_case ''F'' False False, bool_case ''False'' False False,
      bool_case ''false'' False False, bool_case ''FALSE'' False False,
      bool_case ''Yes'' True False, bool_case ''YES'' True False, bool_case ''Y'' True False,
      bool_case ''No'' False False, bool_case ''NO'' False False, bool_case ''N'' False False]"

text \<open>One iteration: \<open>t.Fatalf\<close> on an unexpected error stops the test.\<close>
fun test_read_bool_loop :: "bool \<Rightarrow> bool_test_case list \<Rightarrow> world \<Rightarrow> bool \<times> world" where
  "test_read_bool_loop allow_yn [] w = (True, w)"
| "test_read_bool_loop allow_yn (test # tests) w =
     (let w = write_to_stdio (btc_input test) w;
          ((getbool, err), w) = read_bool (''read test boolean ('' @ btc_input test @ '')\<newline>'') allow_yn w
      in if \<not> btc_exp_error test \<and> err \<noteq> None then (False, w)
         else (let (ok, w) = test_read_bool_loop allow_yn tests w
               in (getbool = btc_exp_value test \<and> ok, w)))"

definition test_read_bool :: "world \<Rightarrow> bool \<times> world" where
  "test_read_bool w = test_read_bool_loop False bool_test_inputs w"

definition test_read_bool_with_yn :: "world \<Rightarrow> bool \<times> world" where
  "test_read_bool_with_yn w = test_read_bool_loop True bool_yn_test_inputs w"

subsection \<open>The tests pass\<close>

text \<open>One iteration of each loop on an empty pipe, and the facts that evaluate a case.\<close>

lemma write_to_stdio_empty:
  "w_stdin w = [] \<Longrightarrow> write_to_stdio d w = \<lparr>w_stdin = [Chunk (d @ ''\<newline>'' @ [])], w_stdout = w_stdout w\<rparr>"
  by (cases w) (simp add: write_to_stdio_def)

lemma read_int_test_step:
  assumes "w_stdin w = []" and "CHR ''\<newline>'' \<notin> set (itc_input t)" and "length (itc_input t) < default_buf_size"
  shows "test_read_int_loop (t # ts) w =
    (let p = ''read test int ('' @ itc_input t @ '')\<newline>'';
         r = int_spec ''Atoi'' (trim_space (itc_input t @ ''\<newline>''));
         (ok, w') = test_read_int_loop ts \<lparr>w_stdin = [], w_stdout = w_stdout w @ p\<rparr>
     in (int_case_ok t (if snd r = None then fst r else 0, snd r) \<and> ok, w'))"
proof -
  have "length (itc_input t @ ''\<newline>'' @ []) \<le> default_buf_size" using assms(3) by simp
  note ri = read_int_one_chunk [OF assms(2) this, of _ "[]" "w_stdout w"]
  have ri': "read_int p (write_to_stdio (itc_input t) w) =
      (let r = int_spec ''Atoi'' (trim_space (itc_input t @ ''\<newline>''))
       in ((if snd r = None then fst r else 0, snd r), \<lparr>w_stdin = [], w_stdout = w_stdout w @ p\<rparr>))" for p
    using ri [of p] by (simp add: write_to_stdio_empty [OF assms(1)])
  show ?thesis by (simp only: test_read_int_loop.simps(2) Let_def ri' prod.case)
qed

lemma read_float_test_step:
  assumes "w_stdin w = []" and "CHR ''\<newline>'' \<notin> set (ftc_input t)" and "length (ftc_input t) < default_buf_size"
  shows "test_read_float_loop (t # ts) w =
    (let p = ''read test float ('' @ ftc_input t @ '')\<newline>'';
         r = parse_float (trim_space (ftc_input t @ ''\<newline>''));
         (ok, w') = test_read_float_loop ts \<lparr>w_stdin = [], w_stdout = w_stdout w @ p\<rparr>
     in (float_case_ok t (if snd r = None then fst r else zero64 False, snd r) \<and> ok, w'))"
proof -
  have "length (ftc_input t @ ''\<newline>'' @ []) \<le> default_buf_size" using assms(3) by simp
  note rf = read_float64_one_chunk [OF assms(2) this, of _ "[]" "w_stdout w"]
  have rf': "read_float64 p (write_to_stdio (ftc_input t) w) =
      (let r = parse_float (trim_space (ftc_input t @ ''\<newline>''))
       in ((if snd r = None then fst r else zero64 False, snd r), \<lparr>w_stdin = [], w_stdout = w_stdout w @ p\<rparr>))" for p
    using rf [of p] by (simp add: write_to_stdio_empty [OF assms(1)])
  show ?thesis by (simp only: test_read_float_loop.simps(2) Let_def rf' prod.case)
qed

lemma format_int_test_facts:
  "CHR ''\<newline>'' \<notin> set (format_int w)" "length (format_int w) < 4096"
  using format_int_chars [of w] length_format_int [of w]
  by (auto simp: list_all_iff)

lemmas test_eval_simps = trim_space_ascii is_ascii_def rune_self_def strip_ascii_space_def ascii_space_iff
  is_digit_def Let_def dec_val_def digit_val_def default_buf_size_def

text \<open>TestReadInt passes: every case of its table, the 64-bit limits included, gets the expected value or the expected error.\<close>
theorem test_read_int_passes: "fst (test_read_int test_world)"
  by (simp add: test_read_int_def int_test_inputs_def test_world_def read_int_test_step
      format_int_test_facts trim_space_format_int atoi_format_int [unfolded atoi_eq_spec]
      int_case_ok_def test_eval_simps del: test_read_int_loop.simps(2))
    (simp add: int_spec_def test_eval_simps)

lemma read_bool_test_step:
  assumes "w_stdin w = []" and "CHR ''\<newline>'' \<notin> set (btc_input t)" and "length (btc_input t) < default_buf_size"
  shows "test_read_bool_loop yn (t # ts) w =
    (let p = ''read test boolean ('' @ btc_input t @ '')\<newline>'';
         s = trim_space (btc_input t @ ''\<newline>'');
         (getbool, err) = (if snd (parse_bool s) \<noteq> None then
              (if yn \<and> s \<in> set yes_answers then (True, None)
               else if yn \<and> s \<in> set no_answers then (False, None)
               else (False, snd (parse_bool s)))
            else (fst (parse_bool s), None));
         w' = \<lparr>w_stdin = [], w_stdout = w_stdout w @ p\<rparr>
     in if \<not> btc_exp_error t \<and> err \<noteq> None then (False, w')
        else (let (ok, w'') = test_read_bool_loop yn ts w' in (getbool = btc_exp_value t \<and> ok, w'')))"
proof -
  have "length (btc_input t @ ''\<newline>'' @ []) \<le> default_buf_size" using assms(3) by simp
  note rs = read_string_one_chunk [OF assms(2) this, of _ "[]" "w_stdout w"]
  have rb: "read_bool p yn (write_to_stdio (btc_input t) w) =
      (let s = trim_space (btc_input t @ ''\<newline>'') in
       (if snd (parse_bool s) \<noteq> None then
          (if yn \<and> s \<in> set yes_answers then (True, None)
           else if yn \<and> s \<in> set no_answers then (False, None)
           else (False, snd (parse_bool s)))
        else (fst (parse_bool s), None), \<lparr>w_stdin = [], w_stdout = w_stdout w @ p\<rparr>))" for p
    using read_bool_eq [OF rs [of p]] by (simp add: write_to_stdio_empty [OF assms(1)] Let_def)
  show ?thesis by (simp only: test_read_bool_loop.simps(2) Let_def rb prod.case) (simp split: prod.split)
qed

text \<open>TestReadBool passes: with allowYN false the ten true/false spellings are accepted and the six yes/no spellings are rejected.\<close>
theorem test_read_bool_passes: "fst (test_read_bool test_world)"
  by (simp add: test_read_bool_def bool_test_inputs_def bool_case_def test_world_def read_bool_test_step
      test_eval_simps parse_bool_def yes_answers_def no_answers_def del: test_read_bool_loop.simps(2))

text \<open>TestReadBoolWithYN passes: with allowYN true the yes/no spellings of the table are accepted too.\<close>
theorem test_read_bool_with_yn_passes: "fst (test_read_bool_with_yn test_world)"
  by (simp add: test_read_bool_with_yn_def bool_yn_test_inputs_def bool_case_def test_world_def read_bool_test_step
      test_eval_simps parse_bool_def yes_answers_def no_answers_def del: test_read_bool_loop.simps(2))

lemma read_string_test_step:
  assumes "w_stdin w = []" and "CHR ''\<newline>'' \<notin> set i" and "length i < default_buf_size"
  shows "test_read_string_loop (i # ts) w =
    (let w' = \<lparr>w_stdin = [], w_stdout = w_stdout w @ ''read test string ('' @ i @ '')\<newline>''\<rparr>;
         (ok, w'') = test_read_string_loop ts w'
     in (trim_space (i @ ''\<newline>'') = i \<and> ok, w''))"
proof -
  have "length (i @ ''\<newline>'' @ []) \<le> default_buf_size" using assms(3) by simp
  note rs = read_string_one_chunk [OF assms(2) this, of _ "[]" "w_stdout w"]
  have rs': "read_string p (write_to_stdio i w) =
      ((trim_space (i @ ''\<newline>''), None), \<lparr>w_stdin = [], w_stdout = w_stdout w @ p\<rparr>)" for p
    using rs [of p] by (simp add: write_to_stdio_empty [OF assms(1)])
  show ?thesis by (simp only: test_read_string_loop.simps(2) Let_def rs' prod.case) (simp add: string_case_ok_def split: prod.split)
qed

lemma trim_space_utf8_tests:
  "trim_space ([CHR 0xC2, CHR 0xB1] @ ''!@#$%^&*()_+'' @ ''\<newline>'') = [CHR 0xC2, CHR 0xB1] @ ''!@#$%^&*()_+''"
  "trim_space ([CHR 0xC3, CHR 0xA0, CHR 0xC3, CHR 0xA4, CHR 0xC3, CHR 0xA6, CHR 0xC4, CHR 0x99, CHR 0xC5, CHR 0xAB, CHR 0xC4, CHR 0xAF] @ ''\<newline>'')
     = [CHR 0xC3, CHR 0xA0, CHR 0xC3, CHR 0xA4, CHR 0xC3, CHR 0xA6, CHR 0xC4, CHR 0x99, CHR 0xC5, CHR 0xAB, CHR 0xC4, CHR 0xAF]"
  by code_simp+

text \<open>TestReadString passes: each input, the non-ASCII and tab-containing ones included, is read back unchanged.\<close>
theorem test_read_string_passes: "fst (test_read_string test_world)"
  by (simp add: test_read_string_def string_test_inputs_def test_world_def read_string_test_step
      test_eval_simps trim_space_utf8_tests [simplified] del: test_read_string_loop.simps(2))


subsection \<open>\<open>TestReadFloat\<close> passes\<close>

lemma round64_test_values:
  "round64 False 1 1 = (\<lparr>f_sign = False, f_exp = 1023, f_frac = 0\<rparr>, False)"
  "round64 False 15 10 = (\<lparr>f_sign = False, f_exp = 1023, f_frac = 0x8000000000000\<rparr>, False)"
  "round64 False 1111111122222222 (10 ^ nat 8) =
     (\<lparr>f_sign = False, f_exp = 1046, f_frac = 1461632787837382\<rparr>, False)"
  "round64 False 5 (10 ^ nat 324) = (smallest_nonzero_float64, False)"
proof -
  show "round64 False 1 1 = (\<lparr>f_sign = False, f_exp = 1023, f_frac = 0\<rparr>, False)"
    using round64_exact [of "\<lparr>f_sign = False, f_exp = 1023, f_frac = 0\<rparr>" 1 1]
    by (simp add: is_finite64_def f_mant_def f_e_def power_int_minus)
  show "round64 False 15 10 = (\<lparr>f_sign = False, f_exp = 1023, f_frac = 0x8000000000000\<rparr>, False)"
    using round64_exact [of "\<lparr>f_sign = False, f_exp = 1023, f_frac = 0x8000000000000\<rparr>" 10 15]
    by (simp add: is_finite64_def f_mant_def f_e_def power_int_minus)
  show "round64 False 1111111122222222 (10 ^ nat 8) =
     (\<lparr>f_sign = False, f_exp = 1046, f_frac = 1461632787837382\<rparr>, False)"
    by (simp add: round64_eval)
  show "round64 False 5 (10 ^ nat 324) = (smallest_nonzero_float64, False)"
    by (simp add: round64_eval smallest_nonzero_float64_def)
qed

lemma float_test_texts_chars:
  "CHR ''\<newline>'' \<notin> set smallest_nonzero_text \<and> trim_space (smallest_nonzero_text @ ''\<newline>'') = smallest_nonzero_text"
  "CHR ''\<newline>'' \<notin> set max_float_text \<and> trim_space (max_float_text @ ''\<newline>'') = max_float_text"
proof -
  have "\<forall>c \<in> set (fmt_digits u [] @ ''.000000''). is_digit c \<or> c = CHR ''.''" for u
    using fmt_digits_props [of u] by (auto simp: list_all_iff is_digit_def)
  from plain_decimal_line [OF this [of "(2 ^ 53 - 1) * 2 ^ 971"]]
  show "CHR ''\<newline>'' \<notin> set max_float_text \<and> trim_space (max_float_text @ ''\<newline>'') = max_float_text"
    unfolding max_float_text_def .
  have "\<forall>c \<in> set smallest_nonzero_text. is_digit c \<or> c = CHR ''.''"
    by (auto simp: smallest_nonzero_text_def is_digit_def)
  from plain_decimal_line [OF this]
  show "CHR ''\<newline>'' \<notin> set smallest_nonzero_text \<and> trim_space (smallest_nonzero_text @ ''\<newline>'') = smallest_nonzero_text" .
qed
lemma max_float_lt_pow10: "((2 :: nat) ^ 53 - 1) * 2 ^ 971 < 10 ^ 1024"
proof -
  have "((2 :: nat) ^ 53 - 1) * 2 ^ 971 < 2 ^ 53 * 2 ^ 971" by (intro mult_strict_right_mono) simp_all
  also have "\<dots> = 2 ^ 1024" by (simp flip: power_add)
  also have "(2 :: nat) ^ 1024 \<le> 10 ^ 1024" by (rule pow_le_pow10) simp
  finally show ?thesis .
qed
lemma max_float_text_length: "length max_float_text < default_buf_size"
proof -
  have "length (fmt_digits ((2 ^ 53 - 1) * 2 ^ 971) []) \<le> 1024"
    using length_fmt_digits [OF max_float_lt_pow10] by simp
  then show ?thesis by (simp add: max_float_text_def default_buf_size_def)
qed
lemma float_test_parse:
  "parse_float ''0.0'' = (zero64 False, None)"
  "parse_float ''1'' = (\<lparr>f_sign = False, f_exp = 1023, f_frac = 0\<rparr>, None)"
  "parse_float ''1.5'' = (\<lparr>f_sign = False, f_exp = 1023, f_frac = 0x8000000000000\<rparr>, None)"
  "parse_float ''alpha'' = (zero64 False, Some (syntax_error ''ParseFloat'' ''alpha''))"
proof -
  have "special ''0.0'' = None" "special ''1'' = None" "special ''1.5'' = None" by code_simp+
  note sp = this
  have "read_float_prefix ''0.0'' = Some \<lparr>fs_mant = 0, fs_exp = 0, fs_neg = False, fs_hex = False, fs_n = 3\<rparr>"
    "read_float_prefix ''1'' = Some \<lparr>fs_mant = 1, fs_exp = 0, fs_neg = False, fs_hex = False, fs_n = 1\<rparr>"
    "read_float_prefix ''1.5'' = Some \<lparr>fs_mant = 15, fs_exp = -1, fs_neg = False, fs_hex = False, fs_n = 3\<rparr>"
    by code_simp+
  note rp = this
  show "parse_float ''0.0'' = (zero64 False, None)"
    using parse_float_accepted [OF sp(1) rp(1)] by (simp add: fscan_frac_def round64_def)
  show "parse_float ''1'' = (\<lparr>f_sign = False, f_exp = 1023, f_frac = 0\<rparr>, None)"
    using parse_float_accepted [OF sp(2) rp(2)] by (simp add: fscan_frac_def round64_test_values(1) [simplified])
  show "parse_float ''1.5'' = (\<lparr>f_sign = False, f_exp = 1023, f_frac = 0x8000000000000\<rparr>, None)"
    using parse_float_accepted [OF sp(3) rp(3)] by (simp add: fscan_frac_def round64_test_values(2))
  show "parse_float ''alpha'' = (zero64 False, Some (syntax_error ''ParseFloat'' ''alpha''))"
    by (simp add: parse_float_def atof64_def special_def read_float_prefix_def mscan0_def is_digit_def
        lower_def byte_of_def is_hex_letter_def)
qed

lemma float_test_parse_11111111:
  "parse_float ''11111111.22222222'' = (\<lparr>f_sign = False, f_exp = 1046, f_frac = 1461632787837382\<rparr>, None)"
proof -
  have f: "fmt_digits 11111111 [] = ''11111111''" by (simp add: fmt_digits_step char_of_def bit_0)
  have d: "list_all is_digit ''22222222''" by (simp add: is_digit_def)
  have v: "dec_val ''22222222'' = 22222222" by (simp add: dec_val_Cons digit_val_def)
  have rp: "read_float_prefix ''11111111.22222222'' =
       Some \<lparr>fs_mant = 1111111122222222, fs_exp = -8, fs_neg = False, fs_hex = False, fs_n = 17\<rparr>"
    using read_float_prefix_point [OF _ d, of 11111111] unfolding f v by simp
  have sp: "special ''11111111.22222222'' = None"
    using special_digit [of "''11111111.22222222''" False] by (simp add: is_digit_def)
  show ?thesis
    using parse_float_accepted [OF sp rp] by (simp add: fscan_frac_def round64_test_values(3) [simplified])
qed

lemma float_test_parse_smallest:
  "parse_float smallest_nonzero_text = (smallest_nonzero_float64, None)"
proof -
  have "fmt_digits 5 [] = ''5''" by (simp add: fmt_digits_step char_of_def bit_0)
  then have rp: "read_float_prefix smallest_nonzero_text =
      Some \<lparr>fs_mant = 5, fs_exp = - 324, fs_neg = False, fs_hex = False, fs_n = 326\<rparr>"
    using read_float_prefix_small [of 5 323] by (simp add: smallest_nonzero_text_def)
  have sp: "special smallest_nonzero_text = None"
    using special_digit [of smallest_nonzero_text False] by (simp add: smallest_nonzero_text_def is_digit_def)
  show ?thesis
    using parse_float_accepted [OF sp rp] round64_test_values(4)
    by (simp add: fscan_frac_def smallest_nonzero_text_def)
qed

lemma float_test_parse_max: "parse_float max_float_text = (max_float64, None)"
proof -
  define M :: nat where "M = (2 ^ 53 - 1) * 2 ^ 971"
  have u: "0 < M" by (simp add: M_def)
  have d: "list_all is_digit ''000000''" by (simp add: is_digit_def)
  have rp: "read_float_prefix (fmt_digits M [] @ ''.'' @ ''000000'') =
      Some \<lparr>fs_mant = M * 10 ^ 6, fs_exp = - 6, fs_neg = False, fs_hex = False,
            fs_n = length (fmt_digits M [] @ ''.'' @ ''000000'')\<rparr>"
    using read_float_prefix_point [OF u d] by (simp add: dec_val_def digit_val_def)
  have sp: "special (fmt_digits M [] @ ''.'' @ ''000000'') = None"
    using special_digit [of "fmt_digits M [] @ ''.'' @ ''000000''" False] fmt_digits_facts [OF u] by simp
  have fin: "is_finite64 max_float64" by (simp add: max_float64_def is_finite64_def)
  have x: "(of_nat (M * 10 ^ 6) / of_nat (10 ^ 6) :: rat) = of_nat (f_mant max_float64) * 2 powi f_e max_float64"
    by (simp add: M_def max_float64_def f_mant_def f_e_def power_int_of_nat)
  have r: "round64 False (M * 10 ^ 6) (10 ^ 6) = (max_float64, False)"
    using round64_exact [OF fin _ x] by (simp add: max_float64_def)
  have "parse_float (fmt_digits M [] @ ''.'' @ ''000000'') = (max_float64, None)"
    using parse_float_accepted [OF sp rp] r by (simp add: fscan_frac_def)
  then show ?thesis unfolding max_float_text_def M_def by simp
qed

lemma smallest_nonzero_text_length: "length smallest_nonzero_text < default_buf_size"
  by (simp add: smallest_nonzero_text_def default_buf_size_def)

text \<open>TestReadFloat passes: each decimal input of its table, the smallest subnormal and the largest finite float included, is read as the expected float64, and "alpha" gives an error.\<close>
theorem test_read_float_passes: "fst (test_read_float test_world)"
  by (simp add: test_read_float_def float_test_inputs_def test_world_def read_float_test_step
      float_test_texts_chars max_float_text_length [unfolded default_buf_size_def] smallest_nonzero_text_length [unfolded default_buf_size_def] float_test_parse float_test_parse_11111111 float_test_parse_smallest
      float_test_parse_max float_case_ok_def test_eval_simps
      float_eq_def is_nan64_def is_zero64_def zero64_def smallest_nonzero_float64_def max_float64_def
      del: test_read_float_loop.simps(2))

end
