(* ===== verification/Session.thy ===== *)
theory Session
  imports Input
begin

text \<open>
  A client of the package: a sequence of calls of \<open>ReadString\<close>, \<open>ReadInt\<close> and
  \<open>ReadBool\<close> on one process, each call taking the world the previous one left. The
  datatype \<open>call\<close> names the operations, \<open>call_step\<close> runs one of them and
  \<open>run_calls\<close> runs a list of them in order. The lemmas show what a sequence writes to
  standard output, that standard input stays well formed, that each call consumes
  input until the end of the stream is reached, and how lines that arrive one per
  read are returned one per call, in order.
\<close>

datatype call = ReadStringCall string | ReadIntCall string | ReadBoolCall string bool

datatype answer =
    StringAnswer "string go_result"
  | IntAnswer "64 word go_result"
  | BoolAnswer "bool go_result"

fun call_step :: "call \<Rightarrow> world \<Rightarrow> answer \<times> world" where
  "call_step (ReadStringCall p) w = (case read_string p w of (r, w') \<Rightarrow> (StringAnswer r, w'))"
| "call_step (ReadIntCall p) w = (case read_int p w of (r, w') \<Rightarrow> (IntAnswer r, w'))"
| "call_step (ReadBoolCall p yn) w = (case read_bool p yn w of (r, w') \<Rightarrow> (BoolAnswer r, w'))"

fun run_calls :: "call list \<Rightarrow> world \<Rightarrow> answer list \<times> world" where
  "run_calls [] w = ([], w)"
| "run_calls (c # cs) w =
     (case call_step c w of (a, w') \<Rightarrow> (case run_calls cs w' of (as, w'') \<Rightarrow> (a # as, w'')))"

fun prompt_of :: "call \<Rightarrow> string" where
  "prompt_of (ReadStringCall p) = p"
| "prompt_of (ReadIntCall p) = p"
| "prompt_of (ReadBoolCall p yn) = p"

text \<open>The world after one more \<open>ReadString(p)\<close>, for a loop that keeps reading.\<close>
definition next_world :: "string \<Rightarrow> world \<Rightarrow> world" where
  "next_world p w = snd (read_string p w)"

text \<open>Standard input that delivers the lines \<open>ls\<close>, one line per read.\<close>
definition line_input :: "string list \<Rightarrow> stdin" where
  "line_input ls = map (\<lambda>l. Chunk (l @ ''\<newline>'')) ls"

lemma call_step_world: "snd (call_step c w) = snd (read_string (prompt_of c) w)"
  by (cases c) (simp_all add: case_prod_unfold read_int_world read_bool_world)

lemma run_calls_simps [simp]:
  "run_calls (c # cs) w = (fst (call_step c w) # fst (run_calls cs (snd (call_step c w))),
                           snd (run_calls cs (snd (call_step c w))))"
  by (simp add: case_prod_unfold)

declare run_calls.simps(2) [simp del]

text \<open>C15: a sequence of calls writes to standard output exactly the prompts of its calls, in order, each once.\<close>
theorem run_calls_stdout:
  "w_stdout (snd (run_calls cs w)) = w_stdout w @ concat (map prompt_of cs)"
proof (induction cs arbitrary: w)
  case Nil
  then show ?case by simp
next
  case (Cons c cs)
  have "w_stdout (snd (call_step c w)) = w_stdout w @ prompt_of c"
    by (simp add: call_step_world read_string_world)
  then show ?case using Cons.IH [of "snd (call_step c w)"] by simp
qed

text \<open>a sequence of calls keeps standard input well formed.\<close>
theorem run_calls_wf:
  "wf_stdin (w_stdin w) \<Longrightarrow> wf_stdin (w_stdin (snd (run_calls cs w)))"
proof (induction cs arbitrary: w)
  case Nil
  then show ?case by simp
next
  case (Cons c cs)
  have "wf_stdin (w_stdin (snd (call_step c w)))"
    using read_string_wf [OF Cons.prems] by (simp add: call_step_world)
  then show ?case using Cons.IH by simp
qed

lemma funpow_next_world_empty:
  "wf_stdin (w_stdin w) \<Longrightarrow> stdin_size (w_stdin w) \<le> n \<Longrightarrow> w_stdin ((next_world p ^^ n) w) = []"
proof (induction n arbitrary: w)
  case 0
  then show ?case by (cases "w_stdin w") (auto simp: stdin_size_def)
next
  case (Suc n)
  have wf': "wf_stdin (w_stdin (next_world p w))"
    using read_string_wf [OF Suc.prems(1)] by (simp add: next_world_def)
  have "stdin_size (w_stdin (next_world p w)) \<le> n"
  proof (cases "w_stdin w = []")
    case True
    then show ?thesis using read_string_Nil [of w p] by (simp add: next_world_def stdin_size_def)
  next
    case False
    then show ?thesis using read_string_shrinks [OF Suc.prems(1) False, of p] Suc.prems(2)
      by (simp add: next_world_def)
  qed
  then have "w_stdin ((next_world p ^^ n) (next_world p w)) = []" by (rule Suc.IH [OF wf'])
  then show ?case by (simp add: funpow_Suc_right del: funpow.simps)
qed

text \<open>C16: a loop that keeps calling ReadString reaches io.EOF: after as many calls as the size of the input (its bytes and its reads), the next call returns the empty string with io.EOF.\<close>
theorem read_string_reaches_eof:
  assumes "wf_stdin (w_stdin w)"
  shows "fst (read_string p ((next_world p ^^ stdin_size (w_stdin w)) w)) = ([], Some EOF)"
  using funpow_next_world_empty [OF assms order.refl, of p] read_string_Nil by blast

text \<open>C17: when every read delivers one line of at most 4095 bytes, a sequence of ReadString calls returns the lines in order, one per call, each trimmed, and consumes them all.\<close>
theorem read_strings_line_input:
  assumes "length ps = length ls"
    and "\<forall>l \<in> set ls. CHR ''\<newline>'' \<notin> set l \<and> length l < default_buf_size"
  shows "run_calls (map ReadStringCall ps) \<lparr>w_stdin = line_input ls, w_stdout = out\<rparr> =
    (map (\<lambda>l. StringAnswer (trim_space (l @ ''\<newline>''), None)) ls,
     \<lparr>w_stdin = [], w_stdout = out @ concat ps\<rparr>)"
  using assms
proof (induction ps ls arbitrary: out rule: list_induct2)
  case Nil
  then show ?case by (simp add: line_input_def)
next
  case (Cons p ps l ls)
  have nl: "CHR ''\<newline>'' \<notin> set l" and len: "length (l @ ''\<newline>'' @ []) \<le> default_buf_size"
    using Cons.prems by auto
  have step: "call_step (ReadStringCall p) \<lparr>w_stdin = line_input (l # ls), w_stdout = out\<rparr> =
      (StringAnswer (trim_space (l @ ''\<newline>''), None), \<lparr>w_stdin = line_input ls, w_stdout = out @ p\<rparr>)"
    using read_string_one_chunk [OF nl len, of p "line_input ls" out] by (simp add: line_input_def)
  show ?case using Cons.IH [of "out @ p"] Cons.prems by (simp add: step del: call_step.simps)
qed

subsection \<open>Instances\<close>

theorem run_calls_wf_witness:
  "wf_stdin (w_stdin (snd (run_calls [ReadIntCall [], ReadStringCall []] \<lparr>w_stdin = [Chunk ''1''], w_stdout = []\<rparr>)))"
  using run_calls_wf [of "\<lparr>w_stdin = [Chunk ''1''], w_stdout = []\<rparr>" "[ReadIntCall [], ReadStringCall []]"] by simp

theorem read_string_reaches_eof_witness:
  "fst (read_string [] ((next_world [] ^^ stdin_size [Chunk ''a\<newline>'']) \<lparr>w_stdin = [Chunk ''a\<newline>''], w_stdout = []\<rparr>)) = ([], Some EOF)"
  using read_string_reaches_eof [of "\<lparr>w_stdin = [Chunk ''a\<newline>''], w_stdout = []\<rparr>" "[]"] by simp

theorem read_strings_line_input_witness:
  "run_calls [ReadStringCall ''a? '', ReadStringCall ''b? ''] \<lparr>w_stdin = line_input [''x'', ''y''], w_stdout = []\<rparr> =
     ([StringAnswer (trim_space ''x\<newline>'', None), StringAnswer (trim_space ''y\<newline>'', None)],
      \<lparr>w_stdin = [], w_stdout = ''a? b? ''\<rparr>)"
  using read_strings_line_input [of "[''a? '', ''b? '']" "[''x'', ''y'']" "[]"] by (simp add: default_buf_size_def)

end
