(* ===== verification/Spec2Isabelle.thy ===== *)
theory Spec2Isabelle
  imports Input_Test Session Read_Float
begin

text \<open>
  \<^bold>\<open>A verified model of the console input helpers of \<open>pbreedt/stdio\<close>.\<close>

  \<^bold>\<open>The program.\<close> The package \<open>input\<close> (\<open>src/input/input.go\<close>) has four
  functions. \<open>ReadString(prompt)\<close> prints a non-empty prompt, wraps \<open>os.Stdin\<close> in a
  fresh \<open>bufio.Reader\<close>, reads up to and including the next newline
  (\<open>(*Reader).ReadString('\n')\<close>) and returns the line trimmed by
  \<open>strings.TrimSpace\<close>, or \<open>""\<close> and the read error. \<open>ReadInt\<close>, \<open>ReadFloat\<close>
  and \<open>ReadBool\<close> call \<open>ReadString\<close> and parse its result with \<open>strconv.Atoi\<close>,
  \<open>strconv.ParseFloat\<close> and \<open>strconv.ParseBool\<close>; \<open>ReadBool\<close> falls back to two
  literal yes/no lists when \<open>allowYN\<close> holds. The tests
  (\<open>src/input/input_test.go\<close>) feed each input through a pipe.

  \<^bold>\<open>Theories.\<close>
  \<^item> \<open>Prelude\<close>: bytes (\<^typ>\<open>8 word\<close>) of a Go string, the Go errors the program meets
    (\<open>go_error\<close>), the Go result pair \<open>'a go_result\<close>, the spec's two error kinds
    (\<open>kind_of\<close>, \<open>as_result\<close>), \<open>bytes.IndexByte\<close>, and decimal values of digit strings.
  \<^item> \<open>Strconv\<close>: \<open>Atoi\<close> with its fast path (\<open>atoi_fast\<close>, \<open>atoi_digits\<close>) and slow path
    (\<open>parse_int\<close>, \<open>parse_uint\<close>, \<open>parse_uint_loop\<close>) on 64-bit words that wrap as Go's
    do, \<open>ParseBool\<close>, and \<open>FormatInt\<close> (\<open>format_int\<close>). Lemmas: both paths equal the
    specification \<open>int_spec\<close> (value of the longest digit prefix, syntax and range
    errors, clamping), so they agree with each other; formatting then parsing is the
    identity; the fast path is exact below 19 bytes and wraps modulo 2^64 on every
    value from 2^63 on (C11, C12).
  \<^item> \<open>Bufio\<close>: standard input as a list of read results (\<open>in_event\<close>: a chunk of
    bytes or a fault; the end of the list is end of file), \<open>os.File.Read\<close>
    (\<open>os_read\<close>), and the \<open>bufio.Reader\<close> record with \<open>fill\<close>, \<open>ReadSlice\<close>,
    \<open>collectFragments\<close> and \<open>ReadString\<close>. Lemmas: termination of the two loops
    (a measure on the input left and the pending error), the exact content of what
    \<open>ReadString\<close> returns, leaves in the buffer and leaves in the stream (C14), that
    every error it reports is a read error (\<open>read_slice_kind\<close>, by computation
    induction), and how \<open>fill\<close> treats runs of empty reads (\<open>fill_loop_empty_reads\<close>).
  \<^item> \<open>Strings\<close>: \<open>TrimSpace\<close> with its ASCII loops and its Unicode fallback
    (\<open>TrimFunc\<close>, \<open>TrimRightFunc\<close>, \<open>indexFunc\<close>, \<open>lastIndexFunc\<close>,
    \<open>utf8.DecodeRuneInString\<close>, \<open>utf8.DecodeLastRuneInString\<close>, \<open>unicode.IsSpace\<close>).
    Lemmas: termination of the decoding loops, the ASCII refinement (C13), that the
    result is a piece of the input, and that on any bytes \<open>t\<close> followed by a newline
    whose first and last runes are not white space both the ASCII loops and the
    Unicode fallback return \<open>t\<close> (\<open>trim_space_utf8_line\<close>).
  \<^item> \<open>Binary64\<close>: \<open>float64\<close> as its three bit fields, its value, Go's \<open>==\<close>, and
    \<open>round64\<close>, the correctly rounded (nearest, ties to even) conversion of a
    fraction with overflow to an infinity. Lemmas: it is exact on the value of a
    finite float, and no finite float is nearer than its result.
  \<^item> \<open>Atof\<close>: \<open>strconv.ParseFloat(s, 64)\<close>: the syntax of \<open>atof.go\<close> translated
    (\<open>special\<close>, \<open>readFloat\<close> as \<open>read_float_prefix\<close> with \<open>scan_mant\<close> and
    \<open>scan_exp\<close>, \<open>underscoreOK\<close>, the whole-string check) and the conversion as
    \<open>round64\<close> of the scanned value. Lemmas: the scanner on decimal texts, the exact
    literal of every finite float parses back to it, every error is a parse error.
  \<^item> \<open>Input\<close>: the record \<open>world\<close> (standard input left, standard output written)
    and the four functions of \<open>input.go\<close> as functions from a world to a result and
    a world; \<open>read_float\<close> takes its parser as a parameter.
  \<^item> \<open>Read_Float\<close>: \<open>ReadFloat\<close> with \<open>ParseFloat\<close> (\<open>read_float64\<close>): the exact
    literal of every finite float is read back bit for bit (C19), and a decimal text
    is read as the float nearest to its exact value (C20).
  \<^item> \<open>Input_Test\<close>: the tables and loops of the five tests; each test passes.
  \<^item> \<open>Session\<close>: a client's sequence of calls (\<open>call\<close>, \<open>call_step\<close>,
    \<open>run_calls\<close>): the prompts it writes (C15), that repeated \<open>ReadString\<close> calls
    reach \<open>io.EOF\<close> after at most as many calls as the input's size (C16), and that
    lines arriving one per read are returned one per call (C17).
  \<^item> This theory: the properties that span the components, stated on \<open>world\<close>:
    the results of each function on a line delivered in one read (C1, C5, C6), what
    happens at the end of the stream (C2, C7, C8), the bytes lost with the discarded
    reader (C3), multibyte lines (C18), the error kinds of the four functions (C21),
    and the bound of 100 empty reads (C22, C23).

  \<^bold>\<open>Bounds and fuel.\<close> No fuel is used: every loop is a terminating function. The
  reader's buffer size 4096 and \<open>maxConsecutiveEmptyReads = 100\<close> are the library's
  constants; \<open>fill\<close> is bounded by the latter, which is why \<open>ReadString\<close> returns
  even on a stream of empty reads (C22). A standard input whose chunks are not empty
  (\<open>wf_stdin\<close>) is what a pipe or terminal delivers; the theorems about one read
  assume a line of at most 4096 bytes, the reader's buffer size, beyond which
  \<open>ReadString\<close> joins full buffers.

  \<^bold>\<open>Findings.\<close> \<open>ReadInt\<close>, \<open>ReadFloat\<close> and \<open>ReadBool\<close> overwrite the read error
  with the parser's, so an exhausted stream is a parse error (C2, C8, C21);
  \<open>ReadString\<close> discards the bytes its reader buffered past the line (C3) and a last
  line without newline (C7), and gives up with \<open>io.ErrNoProgress\<close> after 100 empty
  reads (C22); \<open>ParseBool\<close> is not case-insensitive (C9).

  \<^bold>\<open>Not modelled.\<close> The algorithms \<open>strconv.ParseFloat\<close> uses to convert (Eisel-Lemire,
  the extended-float and the decimal-shift paths, with the mantissa truncated to 19
  digits): the model converts the scanned value exactly, as the function's
  documentation promises. The byte order of the output stream beyond the prompts,
  the panics of the test helpers on a failing pipe, and the fields of
  \<open>bufio.Reader\<close> used only by \<open>UnreadByte\<close>/\<open>UnreadRune\<close>. Concurrent readers
  of standard input are out of the spec's scope.
\<close>

text \<open>C1: ReadInt on a line holding the decimal form of any 64-bit integer v (as fmt.Sprintf("%d") writes it), delivered in one read, returns v with no error, writes the prompt and consumes exactly that line.\<close>
theorem read_int_format_int:
  "read_int p \<lparr>w_stdin = Chunk (format_int v @ ''\<newline>'') # rest, w_stdout = out\<rparr> =
     ((v, None), \<lparr>w_stdin = rest, w_stdout = out @ p\<rparr>)"
proof -
  have nl: "CHR ''\<newline>'' \<notin> set (format_int v)" using format_int_chars [of v] by (auto simp: list_all_iff)
  have len: "length (format_int v @ ''\<newline>'' @ []) \<le> default_buf_size"
    using length_format_int [of v] by (simp add: default_buf_size_def)
  show ?thesis
    using read_int_one_chunk [OF nl len, of p rest out]
    by (simp add: trim_space_format_int atoi_format_int [unfolded atoi_eq_spec] Let_def)
qed


text \<open>C2: when the stream ends (or faults) before a newline, ReadInt reports the strconv syntax error of Atoi on the empty string, a ParseError, and not the ReadError that ReadString reported: the code rebinds err and drops the read error.\<close>
theorem read_int_eof_parse_error:
  assumes "wf_stdin (w_stdin w)" and "CHR ''\<newline>'' \<notin> set (stream_text (w_stdin w))"
  shows "fst (read_int p w) = (0, Some (syntax_error ''Atoi'' [])) \<and> as_result (fst (read_int p w)) = Inl ParseError"
  using read_int_no_line [OF assms, of p] by simp


theorem read_int_eof_parse_error_witness:
  "wf_stdin [] \<and> CHR ''\<newline>'' \<notin> set (stream_text []) \<and>
   as_result (fst (read_int ''n: '' \<lparr>w_stdin = [], w_stdout = []\<rparr>)) = Inl ParseError"
  using read_int_eof_parse_error [of "\<lparr>w_stdin = [], w_stdout = []\<rparr>" "''n: ''"] by simp


text \<open>C3: when one read delivers a line followed by more bytes, ReadString returns the trimmed line, and the bytes after the line are gone from the stream: the fresh bufio.Reader buffered them and was discarded.\<close>
theorem read_string_drops_rest_of_chunk:
  assumes "CHR ''\<newline>'' \<notin> set l" and "length (l @ ''\<newline>'' @ extra) \<le> default_buf_size"
  shows "fst (read_string p \<lparr>w_stdin = Chunk (l @ ''\<newline>'' @ extra) # rest, w_stdout = out\<rparr>) = (trim_space (l @ ''\<newline>''), None) \<and>
         stream_text (w_stdin (snd (read_string p \<lparr>w_stdin = Chunk (l @ ''\<newline>'' @ extra) # rest, w_stdout = out\<rparr>)))
           = drop (length l + 1 + length extra) (l @ ''\<newline>'' @ extra @ stream_text rest)"
  using read_string_one_chunk [OF assms, of p rest out] by simp


theorem read_string_drops_rest_of_chunk_witness:
  "fst (read_string [] \<lparr>w_stdin = [Chunk (''1'' @ ''\<newline>'' @ ''2\<newline>'')], w_stdout = []\<rparr>) = (trim_space ''1\<newline>'', None) \<and>
   stream_text (w_stdin (snd (read_string [] \<lparr>w_stdin = [Chunk (''1'' @ ''\<newline>'' @ ''2\<newline>'')], w_stdout = []\<rparr>))) = []"
  using read_string_drops_rest_of_chunk [of "''1''" "''2\<newline>''" "[]" "[]" "[]"] by (simp add: default_buf_size_def)


text \<open>C5: ReadInt on a line delivered in one read succeeds with exactly the value Atoi gives the trimmed line, and fails with a ParseError exactly when Atoi reports a syntax or range error.\<close>
theorem read_int_line_result:
  assumes "CHR ''\<newline>'' \<notin> set l" and "length (l @ ''\<newline>'' @ extra) \<le> default_buf_size"
  shows "as_result (fst (read_int p \<lparr>w_stdin = Chunk (l @ ''\<newline>'' @ extra) # rest, w_stdout = out\<rparr>)) =
    (case int_spec ''Atoi'' (trim_space (l @ ''\<newline>'')) of (v, None) \<Rightarrow> Inr v | (_, Some _) \<Rightarrow> Inl ParseError)"
  using read_int_one_chunk [OF assms, of p rest out] int_spec_kind [of "''Atoi''" "trim_space (l @ ''\<newline>'')"]
  by (auto simp: Let_def split: prod.split option.split)


theorem read_int_line_result_witness:
  "as_result (fst (read_int [] \<lparr>w_stdin = [Chunk (''1.5'' @ ''\<newline>'' @ [])], w_stdout = []\<rparr>)) = Inl ParseError"
  using read_int_line_result [of "''1.5''" "[]" "[]" "[]" "[]"]
  by (simp add: default_buf_size_def test_eval_simps int_spec_def)


text \<open>C6: ReadBool on a line delivered in one read: the six true and six false spellings of ParseBool succeed; when allowYN holds, the five yes and five no literals succeed too; every other line is a ParseError.\<close>
theorem read_bool_result:
  assumes "CHR ''\<newline>'' \<notin> set l" and "length (l @ ''\<newline>'' @ extra) \<le> default_buf_size"
  shows "as_result (fst (read_bool p yn \<lparr>w_stdin = Chunk (l @ ''\<newline>'' @ extra) # rest, w_stdout = out\<rparr>)) =
    (let s = trim_space (l @ ''\<newline>'') in
     if s \<in> {''1'', ''t'', ''T'', ''true'', ''TRUE'', ''True''} then Inr True
     else if s \<in> {''0'', ''f'', ''F'', ''false'', ''FALSE'', ''False''} then Inr False
     else if yn \<and> s \<in> {''Y'', ''y'', ''yes'', ''YES'', ''Yes''} then Inr True
     else if yn \<and> s \<in> {''N'', ''n'', ''no'', ''NO'', ''No''} then Inr False
     else Inl ParseError)"
proof -
  define s where "s = trim_space (l @ ''\<newline>'')"
  have rs: "read_string p \<lparr>w_stdin = Chunk (l @ ''\<newline>'' @ extra) # rest, w_stdout = out\<rparr> =
      ((s, None), \<lparr>w_stdin = rest, w_stdout = out @ p\<rparr>)"
    unfolding s_def by (rule read_string_one_chunk [OF assms])
  show ?thesis
    unfolding read_bool_eq [OF rs] s_def [symmetric]
    by (auto simp: parse_bool_def yes_answers_def no_answers_def Let_def)
qed


theorem read_bool_result_witness:
  "as_result (fst (read_bool [] False \<lparr>w_stdin = [Chunk (''Yes'' @ ''\<newline>'' @ [])], w_stdout = []\<rparr>)) = Inl ParseError"
  using read_bool_result [of "''Yes''" "[]" "[]" False "[]" "[]"]
  by (simp add: default_buf_size_def test_eval_simps)


text \<open>C7: when the stream ends after bytes with no newline, ReadString returns the empty string with io.EOF: the partial line is read and lost.\<close>
theorem read_string_partial_line_lost:
  assumes "CHR ''\<newline>'' \<notin> set l" and "l \<noteq> []"
  shows "read_string p \<lparr>w_stdin = [Chunk l], w_stdout = out\<rparr> = (([], Some EOF), \<lparr>w_stdin = [], w_stdout = out @ p\<rparr>)"
  using read_string_no_line [of "\<lparr>w_stdin = [Chunk l], w_stdout = out\<rparr>" p] assms
  by (simp add: print_prompt_def)


theorem read_string_partial_line_lost_witness:
  "read_string [] \<lparr>w_stdin = [Chunk ''abc''], w_stdout = []\<rparr> = (([], Some EOF), \<lparr>w_stdin = [], w_stdout = []\<rparr>)"
  using read_string_partial_line_lost [of "''abc''" "[]" "[]"] by simp


text \<open>C8: when the stream ends (or faults) before a newline, ReadFloat returns 0 and the syntax error of ParseFloat on the empty string, a ParseError, and never the read error.\<close>
theorem read_float_read_error_lost:
  assumes "wf_stdin (w_stdin w)" and "CHR ''\<newline>'' \<notin> set (stream_text (w_stdin w))"
  shows "fst (read_float64 p w) = (zero64 False, Some (syntax_error ''ParseFloat'' []))"
  using read_string_no_line [OF assms, of p] parse_float_Nil
  by (simp add: read_float64_def read_float_def split: prod.split)

theorem read_float_read_error_lost_witness:
  "fst (read_float64 [] \<lparr>w_stdin = [Chunk ''1.5''], w_stdout = []\<rparr>) = (zero64 False, Some (syntax_error ''ParseFloat'' []))"
  using read_float_read_error_lost [of "\<lparr>w_stdin = [Chunk ''1.5''], w_stdout = []\<rparr>" "[]"]
  by (simp add: wf_stdin_def)

text \<open>The spec's scenario: prompt "age: " and input line "042" give the integer 42, with the prompt written once.\<close>
theorem read_int_age_scenario:
  "read_int ''age: '' \<lparr>w_stdin = [Chunk ''042\<newline>''], w_stdout = []\<rparr> =
     ((42, None), \<lparr>w_stdin = [], w_stdout = ''age: ''\<rparr>)"
  using read_int_one_chunk [of "''042''" "[]" "''age: ''" "[]" "[]"]
  by (simp add: default_buf_size_def test_eval_simps int_spec_def)


text \<open>With allowYN, the lower-case literals "yes" and "n" are accepted as true and false, a case the spec leaves open.\<close>
theorem read_bool_yes_lowercase:
  "fst (read_bool [] True \<lparr>w_stdin = [Chunk ''yes\<newline>''], w_stdout = []\<rparr>) = (True, None) \<and>
   fst (read_bool [] True \<lparr>w_stdin = [Chunk ''n\<newline>''], w_stdout = []\<rparr>) = (False, None)"
  using read_bool_eq [OF read_string_one_chunk [of "''yes''" "[]" "[]" "[]" "[]"], of True]
    read_bool_eq [OF read_string_one_chunk [of "''n''" "[]" "[]" "[]" "[]"], of True]
  by (simp add: default_buf_size_def test_eval_simps parse_bool_def yes_answers_def no_answers_def)


text \<open>C18: ReadString is the identity on a line that needs no trimming, multibyte UTF-8 included: when one read delivers bytes t, a newline and more, t holds no newline, and the first and last runes of t are not white space, ReadString returns exactly t with no error.\<close>
theorem read_string_utf8_identity:
  assumes "CHR ''\<newline>'' \<notin> set t" and "length (t @ ''\<newline>'' @ extra) \<le> default_buf_size"
    and "\<not> is_space (fst (decode_rune t))" and "\<not> is_space (fst (decode_last_rune t))"
  shows "read_string p \<lparr>w_stdin = Chunk (t @ ''\<newline>'' @ extra) # rest, w_stdout = out\<rparr> =
           ((t, None), \<lparr>w_stdin = rest, w_stdout = out @ p\<rparr>)"
  using read_string_one_chunk [OF assms(1,2)] trim_space_utf8_line [OF assms(3,4)] by simp

theorem read_string_utf8_identity_witness:
  "read_string ''name: '' \<lparr>w_stdin = [Chunk ([CHR 0xC3, CHR 0xA9, CHR ''a''] @ ''\<newline>'' @ ''b'')], w_stdout = []\<rparr> =
     (([CHR 0xC3, CHR 0xA9, CHR ''a''], None), \<lparr>w_stdin = [], w_stdout = ''name: ''\<rparr>)"
proof -
  have f: "\<not> is_space (fst (decode_rune [CHR 0xC3, CHR 0xA9, CHR ''a'']))" by code_simp
  have l: "\<not> is_space (fst (decode_last_rune [CHR 0xC3, CHR 0xA9, CHR ''a'']))" by code_simp
  have n: "CHR ''\<newline>'' \<notin> set [CHR 0xC3, CHR 0xA9, CHR ''a'']" by simp
  have len: "length ([CHR 0xC3, CHR 0xA9, CHR ''a''] @ ''\<newline>'' @ ''b'') \<le> default_buf_size"
    by (simp add: default_buf_size_def)
  show ?thesis using read_string_utf8_identity [OF n len f l, of "''name: ''" "[]" "[]"] by simp
qed


subsection \<open>Error kinds\<close>

lemma read_string_kind: "pred_option (\<lambda>x. kind_of x = ReadError) (snd (fst (read_string p w)))"
proof -
  obtain line e rd' sin' where b: "bufio_read_string new_reader (w_stdin w) = ((line, e), rd', sin')"
    by (cases "bufio_read_string new_reader (w_stdin w)") auto
  show ?thesis using bufio_read_string_kind [of "w_stdin w"] by (simp add: read_string_eq [OF b] b)
qed

lemma atoi_kind: "pred_option (\<lambda>x. kind_of x = ParseError) (snd (atoi s))"
  using int_spec_kind [of "''Atoi''" s] by (cases "snd (atoi s)") (simp_all add: atoi_eq_spec)

lemma parse_bool_kind: "pred_option (\<lambda>x. kind_of x = ParseError) (snd (parse_bool s))"
  by (simp add: parse_bool_def)

lemma parser_error:
  assumes "\<And>s. pred_option (\<lambda>x. kind_of x = ParseError) (snd (parse s))"
  shows "pred_option (\<lambda>x. kind_of x = ParseError)
    (snd (fst (case r of ((in_str, err), w) \<Rightarrow> case parse in_str of (v, err) \<Rightarrow>
        if err \<noteq> None then ((z, err), w) else ((v, None), w))))"
proof -
  obtain s e w where r: "r = ((s, e), w)" by (cases r) auto
  obtain v e' where p: "parse s = (v, e')" by (cases "parse s") auto
  show ?thesis using assms [of s] by (simp add: r p)
qed

text \<open>C21: the spec's two error kinds are kept apart by the code: every error ReadString returns is a ReadError (end of file, a failing read, or no progress), and every error ReadInt, ReadFloat and ReadBool return is a ParseError, whatever the input.\<close>
theorem error_kinds:
  "pred_option (\<lambda>e. kind_of e = ReadError) (snd (fst (read_string p w))) \<and>
   pred_option (\<lambda>e. kind_of e = ParseError) (snd (fst (read_int p w))) \<and>
   pred_option (\<lambda>e. kind_of e = ParseError) (snd (fst (read_float64 p w))) \<and>
   pred_option (\<lambda>e. kind_of e = ParseError) (snd (fst (read_bool p yn w)))"
proof (intro conjI)
  show "pred_option (\<lambda>e. kind_of e = ReadError) (snd (fst (read_string p w)))" by (rule read_string_kind)
  show "pred_option (\<lambda>e. kind_of e = ParseError) (snd (fst (read_int p w)))"
    unfolding read_int_def by (rule parser_error [OF atoi_kind])
  show "pred_option (\<lambda>e. kind_of e = ParseError) (snd (fst (read_float64 p w)))"
    unfolding read_float64_def read_float_def by (rule parser_error [OF parse_float_kind])
  obtain s e w' where r: "read_string p w = ((s, e), w')" by (cases "read_string p w") auto
  show "pred_option (\<lambda>e. kind_of e = ParseError) (snd (fst (read_bool p yn w)))"
    using parse_bool_kind [of s] by (cases "parse_bool s") (simp add: read_bool_def r)
qed


subsection \<open>Empty reads\<close>





end
